theory Spec2Isabelle
  imports Main "HOL-Library.Word"
begin

unbundle bit_operations_syntax

section \<open>Python values\<close>

text \<open>
  A Python \<open>bytes\<close> object is a list of 8-bit words; Python's unbounded \<open>int\<close> is
  \<open>int\<close>. Every exception the modelled code can raise is a value of \<open>exn\<close>;
  \<open>ValueError\<close> carries its message, because the source tells several failures apart
  by the message alone.
\<close>

type_synonym byte = "8 word"
type_synonym bytes = "byte list"

datatype exn =
    ValueError string
  | AssertionError
  | ZeroDivisionError
  | OverflowError
  | ReceiverCancelled
  | IncompleteReadError
  | LimitOverrunError
  | CancelledError
  | InvalidStateError

text \<open>\<open>b * k\<close> on bytes: \<open>k\<close> copies of \<open>b\<close>, none when \<open>k \<le> 0\<close>.\<close>

definition bytes_repeat :: "bytes \<Rightarrow> int \<Rightarrow> bytes" where
  "bytes_repeat b k = concat (replicate (nat k) b)"

section \<open>common.py: pad_to_multiple\<close>

text \<open>
  \<^verbatim>\<open>
  def pad_to_multiple(data, multiple, padding):
      assert len(padding) == 1
      if len(data) % multiple == 0:
          return data
      num_complete_blocks = len(data) // multiple
      padded_size = multiple * (num_complete_blocks + 1)
      return data + padding * (padded_size - len(data))
  \<close>
  Python's \<open>%\<close> and \<open>//\<close> round towards minus infinity, as \<open>mod\<close> and \<open>div\<close> on
  \<open>int\<close> do; \<open>%\<close> by zero raises.
\<close>

definition pad_to_multiple :: "bytes \<Rightarrow> int \<Rightarrow> bytes \<Rightarrow> exn + bytes" where
  "pad_to_multiple data multiple padding =
     (if length padding \<noteq> 1 then Inl AssertionError
      else if multiple = 0 then Inl ZeroDivisionError
      else if int (length data) mod multiple = 0 then Inr data
      else
        let num_complete_blocks = int (length data) div multiple;
            padded_size = multiple * (num_complete_blocks + 1)
        in Inr (data @ bytes_repeat padding (padded_size - int (length data))))"

section \<open>common.py: the checksum engine\<close>

subsection \<open>The CRC calculator the source configures\<close>

text \<open>
  Modelled from the spec: \<open>crc.Configuration\<close> and \<open>crc.Calculator.checksum\<close>, which
  \<open>common.py\<close> imports from the \<open>crc\<close> package and which are not among the source
  files. The spec's checksum configuration is the parameter set (bit width 16,
  polynomial, initial value, final XOR value, input-bit-reversal flag,
  output-bit-reversal flag); the calculator is the byte-at-a-time shift register over
  such a parameter set: a byte (bit-reversed first when the input flag is set) is
  XORed into the top eight bits of the register, the register is shifted left eight
  times, XORing in the polynomial whenever the bit shifted out is set, and at the end
  the register is bit-reversed when the output flag is set and XORed with the final
  value. The register holds \<open>width = 16\<close> bits after every assignment, so it is a
  \<open>16 word\<close>; the checksum is returned as a Python \<open>int\<close>.
\<close>

record Configuration =
  polynomial :: "16 word"
  init_value :: "16 word"
  final_xor_value :: "16 word"
  reverse_input :: bool
  reverse_output :: bool

definition register_shift :: "16 word \<Rightarrow> 16 word \<Rightarrow> 16 word" where
  "register_shift poly r =
     (if r AND 0x8000 \<noteq> 0 then push_bit 1 r XOR poly else push_bit 1 r)"

definition process_byte :: "16 word \<Rightarrow> 16 word \<Rightarrow> byte \<Rightarrow> 16 word" where
  "process_byte poly r b = (register_shift poly ^^ 8) (r XOR push_bit 8 (ucast b))"

definition update :: "Configuration \<Rightarrow> bytes \<Rightarrow> 16 word \<Rightarrow> 16 word" where
  "update cfg data r =
     fold (\<lambda>b r. process_byte (polynomial cfg) r
                    (if reverse_input cfg then word_reverse b else b))
       data r"

definition digest :: "Configuration \<Rightarrow> 16 word \<Rightarrow> int" where
  "digest cfg r =
     uint ((if reverse_output cfg then word_reverse r else r) XOR final_xor_value cfg)"

definition checksum :: "Configuration \<Rightarrow> bytes \<Rightarrow> int" where
  "checksum cfg data = digest cfg (update cfg data (init_value cfg))"

subsection \<open>The two calculators of common.py\<close>

text \<open>
  \<^verbatim>\<open>
  CRC_CCITT = crc.Calculator(crc.Configuration(width=16, polynomial=0x1021,
      init_value=0x0000, final_xor_value=0x0000,
      reverse_input=False, reverse_output=False))
  CRC_KERMIT = crc.Calculator(crc.Configuration(width=16, polynomial=0x1021,
      init_value=0xFFFF, final_xor_value=0xFFFF,
      reverse_input=True, reverse_output=True))

  def crc16_ccitt(data: bytes) -> int:
      return CRC_CCITT.checksum(data)

  def crc16_kermit(data: bytes) -> int:
      return CRC_KERMIT.checksum(data)
  \<close>
\<close>

definition CRC_CCITT :: Configuration where
  "CRC_CCITT = \<lparr>polynomial = 0x1021, init_value = 0x0000, final_xor_value = 0x0000,
     reverse_input = False, reverse_output = False\<rparr>"

definition CRC_KERMIT :: Configuration where
  "CRC_KERMIT = \<lparr>polynomial = 0x1021, init_value = 0xFFFF, final_xor_value = 0xFFFF,
     reverse_input = True, reverse_output = True\<rparr>"

definition crc16_ccitt :: "bytes \<Rightarrow> int" where
  "crc16_ccitt data = checksum CRC_CCITT data"

definition crc16_kermit :: "bytes \<Rightarrow> int" where
  "crc16_kermit data = checksum CRC_KERMIT data"

subsection \<open>Reference algorithms, for comparison\<close>

text \<open>
  The CRC a parameter set defines, in the bit-serial form of the parametrised CRC
  model: the message is a stream of bits (of every byte the most significant bit
  first, or the least significant first when the input is reflected); each message
  bit is compared with the bit about to leave the register, the register is shifted
  left, and the polynomial is XORed in when the two bits differ. This is a second,
  independent definition: it is not the calculator above, which works a byte at a
  time.
\<close>

definition shift_in :: "16 word \<Rightarrow> bool \<Rightarrow> 16 word \<Rightarrow> 16 word" where
  "shift_in poly m r = (if bit r 15 \<noteq> m then push_bit 1 r XOR poly else push_bit 1 r)"

definition message_bits :: "bool \<Rightarrow> bytes \<Rightarrow> bool list" where
  "message_bits refin data =
     concat (map (\<lambda>b. map (bit b) (if refin then [0..<8] else rev [0..<8])) data)"

definition crc16_reference ::
  "16 word \<Rightarrow> 16 word \<Rightarrow> bool \<Rightarrow> bool \<Rightarrow> 16 word \<Rightarrow> bytes \<Rightarrow> 16 word" where
  "crc16_reference poly init refin refout xorout data =
     (let r = fold (shift_in poly) (message_bits refin data) init
      in (if refout then word_reverse r else r) XOR xorout)"

text \<open>
  The reflected algorithms as receivers usually implement them: the register is
  shifted right, least significant bit first, with the reversed polynomial \<open>0x8408\<close>,
  and nothing is bit-reversed.
\<close>

definition lsb_shift :: "16 word \<Rightarrow> 16 word" where
  "lsb_shift r = (if r AND 1 \<noteq> 0 then drop_bit 1 r XOR 0x8408 else drop_bit 1 r)"

definition crc16_lsb_first :: "16 word \<Rightarrow> 16 word \<Rightarrow> bytes \<Rightarrow> 16 word" where
  "crc16_lsb_first init xorout data =
     fold (\<lambda>b r. (lsb_shift ^^ 8) (r XOR ucast b)) data init XOR xorout"

text \<open>
  The four named algorithms of the catalogue of parametrised CRCs that share the
  polynomial \<open>0x1021\<close> and differ in the other parameters. Each is identified by its
  published check value, the CRC of the ASCII string \<open>123456789\<close>:
  CRC-16/XMODEM \<open>0x31C3\<close>, CRC-16/CCITT-FALSE \<open>0x29B1\<close>, CRC-16/KERMIT \<open>0x2189\<close>,
  CRC-16/X-25 \<open>0x906E\<close>.
\<close>

definition crc16_xmodem_reference :: "bytes \<Rightarrow> 16 word" where
  "crc16_xmodem_reference = crc16_reference 0x1021 0x0000 False False 0x0000"

definition crc16_ccitt_false_reference :: "bytes \<Rightarrow> 16 word" where
  "crc16_ccitt_false_reference = crc16_reference 0x1021 0xFFFF False False 0x0000"

definition crc16_kermit_reference :: "bytes \<Rightarrow> 16 word" where
  "crc16_kermit_reference = crc16_reference 0x1021 0x0000 True True 0x0000"

definition crc16_x25_reference :: "bytes \<Rightarrow> 16 word" where
  "crc16_x25_reference = crc16_reference 0x1021 0xFFFF True True 0xFFFF"

definition check_string :: bytes where
  "check_string = [0x31, 0x32, 0x33, 0x34, 0x35, 0x36, 0x37, 0x38, 0x39]"

section \<open>xmodemcrc.py: the block transfer engine\<close>

subsection \<open>Constants, messages and the packet\<close>

definition BLOCK_SIZE :: nat where
  "BLOCK_SIZE = 128"

text \<open>\<open>class Symbol(zigpy.types.enum8)\<close>: the control bytes.\<close>

definition SOH :: byte where "SOH = 0x01"
definition EOT :: byte where "EOT = 0x04"
definition CAN :: byte where "CAN = 0x18"
definition ETB :: byte where "ETB = 0x17"
definition ACK :: byte where "ACK = 0x06"
definition NAK :: byte where "NAK = 0x15"

text \<open>\<open>str(i)\<close> for an integer, as the f-strings of the error messages print it.\<close>

definition digit_char :: "nat \<Rightarrow> char" where
  "digit_char d = ''0123456789'' ! d"

function str_nat :: "nat \<Rightarrow> string" where
  "str_nat n = (if n < 10 then [digit_char n] else str_nat (n div 10) @ [digit_char (n mod 10)])"
  by pat_completeness auto
termination
  by (relation "measure id") auto

definition str_int :: "int \<Rightarrow> string" where
  "str_int i = (if i < 0 then CHR 0x2D # str_nat (nat (- i)) else str_nat (nat i))"

text \<open>
  \<open>repr\<close> of a bytes object (the \<open>!r\<close> of the message for an invalid response): \<open>b\<close>,
  a quote (the double quote when the bytes hold a single quote and no double quote),
  the bytes with the quote and the backslash escaped, tab, newline and carriage
  return as \<open>\t\<close>, \<open>\n\<close>, \<open>\r\<close>, every other byte outside the printable ASCII range as
  \<open>\xhh\<close>, and the quote again.
\<close>

definition hex_digit :: "nat \<Rightarrow> char" where
  "hex_digit d = ''0123456789abcdef'' ! d"

definition repr_byte :: "char \<Rightarrow> byte \<Rightarrow> string" where
  "repr_byte quote c =
     (let ch = (char_of (unat c) :: char) in
      if ch = quote \<or> c = 0x5C then [CHR 0x5C, ch]
      else if c = 0x09 then [CHR 0x5C, CHR ''t'']
      else if c = 0x0A then [CHR 0x5C, CHR ''n'']
      else if c = 0x0D then [CHR 0x5C, CHR ''r'']
      else if c < 0x20 \<or> 0x7F \<le> c
        then [CHR 0x5C, CHR ''x'', hex_digit (unat c div 16), hex_digit (unat c mod 16)]
      else [ch])"

definition repr_bytes :: "bytes \<Rightarrow> string" where
  "repr_bytes bs =
     (let quote = (if 0x27 \<in> set bs \<and> 0x22 \<notin> set bs then CHR 0x22 else CHR 0x27)
      in [CHR ''b'', quote] @ concat (map (repr_byte quote) bs) @ [quote])"

text \<open>
  The three \<open>ValueError\<close>s of the module, by the message each is raised with:
  \<^verbatim>\<open>
  raise ValueError(f"Data length must be divisible by {BLOCK_SIZE}: {len(data)}")
  raise ValueError(f"Received {max_failures} consecutive failures")
  raise ValueError(f"Invalid response: {rsp_byte!r}")
  \<close>
  The spec calls them \<open>InvalidInput\<close>, \<open>TooManyFailures\<close> and \<open>ProtocolViolation\<close>.
\<close>

definition InvalidInput :: "nat \<Rightarrow> exn" where
  "InvalidInput len =
     ValueError (''Data length must be divisible by '' @ str_int (int BLOCK_SIZE) @ '': ''
                 @ str_int (int len))"

definition TooManyFailures :: "int \<Rightarrow> exn" where
  "TooManyFailures max_failures =
     ValueError (''Received '' @ str_int max_failures @ '' consecutive failures'')"

definition ProtocolViolation :: "bytes \<Rightarrow> exn" where
  "ProtocolViolation rsp_byte = ValueError (''Invalid response: '' @ repr_bytes rsp_byte)"

text \<open>
  \<open>bytes([...])\<close> of a list of integers raises \<open>ValueError\<close> unless every one is in
  \<open>range(256)\<close>; \<open>i.to_bytes(2, "big")\<close> raises \<open>OverflowError\<close> unless \<open>0 \<le> i < 65536\<close>.
\<close>

definition bytes_of_ints :: "int list \<Rightarrow> exn + bytes" where
  "bytes_of_ints xs =
     (if list_all (\<lambda>x. 0 \<le> x \<and> x < 256) xs then Inr (map word_of_int xs)
      else Inl (ValueError ''bytes must be in range(0, 256)''))"

definition to_bytes_2_big :: "int \<Rightarrow> exn + bytes" where
  "to_bytes_2_big i =
     (if 0 \<le> i \<and> i < 65536 then Inr [word_of_int (i div 256), word_of_int (i mod 256)]
      else Inl OverflowError)"

text \<open>
  \<^verbatim>\<open>
  @dataclasses.dataclass(frozen=True)
  class Xmodem128CRCPacket:
      number: zigpy.types.uint8_t
      payload: bytes

      def serialize(self) -> bytes:
          return (
              bytes([Symbol.SOH, self.number, 0xFF - self.number])
              + self.payload
              + crc16_ccitt(self.payload).to_bytes(2, "big")
          )
  \<close>
  The annotation of \<open>number\<close> is not enforced: the field holds the Python integer it
  is given.
\<close>

record Xmodem128CRCPacket =
  number :: int
  payload :: bytes

definition serialize :: "Xmodem128CRCPacket \<Rightarrow> exn + bytes" where
  "serialize p =
     (case bytes_of_ints [uint SOH, number p, 0xFF - number p] of
        Inl e \<Rightarrow> Inl e
      | Inr header \<Rightarrow>
          (case to_bytes_2_big (crc16_ccitt (payload p)) of
             Inl e \<Rightarrow> Inl e
           | Inr crc \<Rightarrow> Inr (header @ payload p @ crc)))"

subsection \<open>The transport, the stream reader and the receiver\<close>

text \<open>
  The world \<open>send_xmodem128_crc\<close> runs in, passed through every operation:
  \<^item> \<open>protocol\<close>: the transport's current protocol, either the one installed before
    the call or the \<open>StreamReaderProtocol\<close> the call creates;
  \<^item> \<open>incoming\<close>: what the event loop will deliver while the coroutine is suspended
    in a read, in order: a chunk of received bytes (\<open>data_received\<close>), the end of
    the stream (\<open>eof_received\<close>), or the cancellation of the task. The receiver is
    any such list, so a theorem for every list holds for every receiver;
  \<^item> \<open>buffer\<close> and \<open>eof\<close>: the \<open>_buffer\<close> and \<open>_eof\<close> of the \<open>StreamReader\<close>;
  \<^item> \<open>trace\<close>: what the call has done so far, in order: the bytes of every
    \<open>writer.write\<close>, the result of every read, the bytes dropped by
    \<open>reader._buffer.clear()\<close>, and the arguments of every \<open>progress_callback\<close> call.
  \<open>writer.drain()\<close> returns at once (the transport is not paused), so the coroutine
  is suspended only inside a read. A call ends in \<open>Returned\<close>, in \<open>Raised\<close> with
  the exception, or, when the receiver sends nothing more, stays \<open>Suspended\<close> in its
  read and never reaches the code after it.
\<close>

datatype event = Recv bytes | Eof | Cancel

datatype 'p protocol_ref = Installed 'p | StreamReaderProtocol

datatype action =
    Wrote bytes
  | ReadUntil bytes
  | ReadExactly bytes
  | Cleared bytes
  | Progress int int

record 'p world =
  protocol :: "'p protocol_ref"
  incoming :: "event list"
  buffer :: bytes
  eof :: bool
  trace :: "action list"

datatype 'a outcome = Returned 'a | Raised exn | Suspended

definition bind ::
  "'a outcome \<times> 'p world \<Rightarrow> ('a \<Rightarrow> 'p world \<Rightarrow> 'b outcome \<times> 'p world)
     \<Rightarrow> 'b outcome \<times> 'p world" where
  "bind m f =
     (case m of
        (Returned x, s) \<Rightarrow> f x s
      | (Raised e, s) \<Rightarrow> (Raised e, s)
      | (Suspended, s) \<Rightarrow> (Suspended, s))"

text \<open>\<open>try: body finally: cleanup\<close>; a coroutine suspended for ever runs no cleanup.\<close>

definition try_finally ::
  "('p world \<Rightarrow> 'a outcome \<times> 'p world) \<Rightarrow> ('p world \<Rightarrow> 'p world)
     \<Rightarrow> 'p world \<Rightarrow> 'a outcome \<times> 'p world" where
  "try_finally body cleanup s =
     (case body s of
        (Suspended, s') \<Rightarrow> (Suspended, s')
      | (r, s') \<Rightarrow> (r, cleanup s'))"

definition log :: "action \<Rightarrow> 'p world \<Rightarrow> 'p world" where
  "log a s = s\<lparr>trace := trace s @ [a]\<rparr>"

text \<open>
  \<open>StreamReader(limit=65536)\<close>. \<open>readexactly(1)\<close> takes the first byte of the buffer,
  waiting for data while the buffer is empty and raising \<open>IncompleteReadError\<close> once
  the stream has ended:
  \<^verbatim>\<open>
  while len(self._buffer) < n:
      if self._eof:
          incomplete = bytes(self._buffer); self._buffer.clear()
          raise IncompleteReadError(incomplete, n)
      await self._wait_for_data('readexactly')
  data = bytes(self._buffer[:n]); del self._buffer[:n]
  return data
  \<close>
\<close>

definition LIMIT :: nat where
  "LIMIT = 65536"

function readexactly_1 :: "'p world \<Rightarrow> bytes outcome \<times> 'p world" where
  "readexactly_1 s =
     (case buffer s of
        b # rest \<Rightarrow> (Returned [b], log (ReadExactly [b]) (s\<lparr>buffer := rest\<rparr>))
      | [] \<Rightarrow>
          if eof s then (Raised IncompleteReadError, s)
          else
            (case incoming s of
               [] \<Rightarrow> (Suspended, s)
             | Cancel # evs \<Rightarrow> (Raised CancelledError, s\<lparr>incoming := evs\<rparr>)
             | Eof # evs \<Rightarrow> readexactly_1 (s\<lparr>incoming := evs, eof := True\<rparr>)
             | Recv bs # evs \<Rightarrow> readexactly_1 (s\<lparr>incoming := evs, buffer := buffer s @ bs\<rparr>)))"
  by pat_completeness auto
termination
  by (relation "measure (\<lambda>s. length (incoming s))") auto

text \<open>
  \<open>readuntil(sep)\<close> for a one-byte separator returns the buffer up to and including
  the first \<open>sep\<close>, waiting for data while the buffer holds none:
  \<^verbatim>\<open>
  offset = 0
  while True:
      buflen = len(self._buffer)
      if buflen - offset >= seplen:
          isep = self._buffer.find(separator, offset)
          if isep != -1:
              break
          offset = buflen + 1 - seplen
          if offset > self._limit:
              raise LimitOverrunError(...)
      if self._eof:
          chunk = bytes(self._buffer); self._buffer.clear()
          raise IncompleteReadError(chunk, None)
      await self._wait_for_data('readuntil')
  if isep > self._limit:
      raise LimitOverrunError(...)
  chunk = self._buffer[:isep + seplen]
  del self._buffer[:isep + seplen]
  return bytes(chunk)
  \<close>
\<close>

function readuntil :: "byte \<Rightarrow> 'p world \<Rightarrow> bytes outcome \<times> 'p world" where
  "readuntil sep s =
     (if sep \<in> set (buffer s) then
        let isep = length (takeWhile (\<lambda>b. b \<noteq> sep) (buffer s)) in
        if isep > LIMIT then (Raised LimitOverrunError, s)
        else
          let chunk = take (isep + 1) (buffer s)
          in (Returned chunk, log (ReadUntil chunk) (s\<lparr>buffer := drop (isep + 1) (buffer s)\<rparr>))
      else if length (buffer s) > LIMIT then (Raised LimitOverrunError, s)
      else if eof s then (Raised IncompleteReadError, s\<lparr>buffer := []\<rparr>)
      else
        (case incoming s of
           [] \<Rightarrow> (Suspended, s)
         | Cancel # evs \<Rightarrow> (Raised CancelledError, s\<lparr>incoming := evs\<rparr>)
         | Eof # evs \<Rightarrow> readuntil sep (s\<lparr>incoming := evs, eof := True\<rparr>)
         | Recv bs # evs \<Rightarrow> readuntil sep (s\<lparr>incoming := evs, buffer := buffer s @ bs\<rparr>)))"
  by pat_completeness auto
termination
  by (relation "measure (\<lambda>(sep, s). length (incoming s))") auto

subsection \<open>send_xmodem128_crc_data\<close>

text \<open>
  \<^verbatim>\<open>
  async def send_xmodem128_crc_data(data, *, reader, writer, max_failures):
      for attempt in range(max_failures + 1):
          writer.write(data)
          await writer.drain()
          rsp_byte = await reader.readexactly(1)
          if rsp_byte[0] == Symbol.ACK:
              return
          elif rsp_byte[0] == Symbol.NAK:
              if attempt >= max_failures:
                  raise ValueError(f"Received {max_failures} consecutive failures")
          elif rsp_byte[0] == Symbol.CAN:
              raise ReceiverCancelled()
          else:
              raise ValueError(f"Invalid response: {rsp_byte!r}")
  \<close>
  The loop runs over the attempts \<open>0, ..., max_failures\<close> that are left; when none is
  left (which \<open>range\<close> allows only for a negative \<open>max_failures\<close>) the function falls
  off its end and returns.
\<close>

fun attempts_loop :: "bytes \<Rightarrow> int \<Rightarrow> int list \<Rightarrow> 'p world \<Rightarrow> unit outcome \<times> 'p world" where
  "attempts_loop data max_failures [] s = (Returned (), s)"
| "attempts_loop data max_failures (attempt # rest) s =
     bind (readexactly_1 (log (Wrote data) s))
       (\<lambda>rsp_byte s'.
          if hd rsp_byte = ACK then (Returned (), s')
          else if hd rsp_byte = NAK then
            (if attempt \<ge> max_failures then (Raised (TooManyFailures max_failures), s')
             else attempts_loop data max_failures rest s')
          else if hd rsp_byte = CAN then (Raised ReceiverCancelled, s')
          else (Raised (ProtocolViolation rsp_byte), s'))"

definition send_xmodem128_crc_data :: "bytes \<Rightarrow> int \<Rightarrow> 'p world \<Rightarrow> unit outcome \<times> 'p world" where
  "send_xmodem128_crc_data data max_failures s =
     attempts_loop data max_failures [0..max_failures] s"

subsection \<open>send_xmodem128_crc\<close>

text \<open>
  \<^verbatim>\<open>
  async def send_xmodem128_crc(data, *, transport, max_failures=3, progress_callback=None):
      if len(data) % BLOCK_SIZE != 0:
          raise ValueError(f"Data length must be divisible by {BLOCK_SIZE}: {len(data)}")
      loop = asyncio.get_running_loop()
      reader = asyncio.StreamReader(limit=65536, loop=loop)
      protocol = asyncio.StreamReaderProtocol(reader, loop=loop)
      writer = asyncio.StreamWriter(transport, protocol, reader, loop)
      # Swap protocols
      old_protocol = transport.get_protocol()
      transport.set_protocol(protocol)
      try:
          # Read until the first ASCII "C"
          await reader.readuntil(b"C")
          if progress_callback is not None:
              progress_callback(0, len(data))
          # FIXME: ensure any subsequent "C"s have been cleared so they do not interfere
          reader._buffer.clear()
          for index in range(0, len(data) // BLOCK_SIZE):
              packet = Xmodem128CRCPacket(
                  number=(index + 1) & 0xFF,  # `seq` starts at 1 and then wraps
                  payload=data[BLOCK_SIZE * index : BLOCK_SIZE * (index + 1)],
              )
              # Send off the packet
              await send_xmodem128_crc_data(data=packet.serialize(), ...)
              if progress_callback is not None:
                  progress_callback((index + 1) * BLOCK_SIZE, len(data))
          # Once we are done, finalize the transmission
          await send_xmodem128_crc_data(data=bytes([Symbol.EOT]), ...)
      finally:
          # Reset the old protocol
          transport.set_protocol(old_protocol)
  \<close>
  \<open>progress_callback\<close> is modelled by whether one is supplied; each call it would
  receive is recorded in the trace with its arguments.
\<close>

definition slice :: "bytes \<Rightarrow> nat \<Rightarrow> nat \<Rightarrow> bytes" where
  "slice data start stop = take (stop - start) (drop start data)"

definition call_progress :: "bool \<Rightarrow> int \<Rightarrow> int \<Rightarrow> 'p world \<Rightarrow> 'p world" where
  "call_progress progress_callback sent total_bytes s =
     (if progress_callback then log (Progress sent total_bytes) s else s)"

definition make_packet :: "bytes \<Rightarrow> nat \<Rightarrow> Xmodem128CRCPacket" where
  "make_packet data index =
     \<lparr>number = (int index + 1) AND 0xFF,
      payload = slice data (BLOCK_SIZE * index) (BLOCK_SIZE * (index + 1))\<rparr>"

fun blocks_loop ::
  "bytes \<Rightarrow> int \<Rightarrow> bool \<Rightarrow> nat list \<Rightarrow> 'p world \<Rightarrow> unit outcome \<times> 'p world" where
  "blocks_loop data max_failures progress_callback [] s = (Returned (), s)"
| "blocks_loop data max_failures progress_callback (index # rest) s =
     (case serialize (make_packet data index) of
        Inl e \<Rightarrow> (Raised e, s)
      | Inr wire \<Rightarrow>
          bind (send_xmodem128_crc_data wire max_failures s)
            (\<lambda>_ s'. blocks_loop data max_failures progress_callback rest
               (call_progress progress_callback
                  ((int index + 1) * int BLOCK_SIZE) (int (length data)) s')))"

definition transfer :: "bytes \<Rightarrow> int \<Rightarrow> bool \<Rightarrow> 'p world \<Rightarrow> unit outcome \<times> 'p world" where
  "transfer data max_failures progress_callback s =
     bind (readuntil 0x43 s)
       (\<lambda>_ s1.
          let s2 = call_progress progress_callback 0 (int (length data)) s1;
              s3 = log (Cleared (buffer s2)) (s2\<lparr>buffer := []\<rparr>)
          in bind (blocks_loop data max_failures progress_callback
                     [0..<length data div BLOCK_SIZE] s3)
               (\<lambda>_ s4. send_xmodem128_crc_data [EOT] max_failures s4))"

definition send_xmodem128_crc ::
  "bytes \<Rightarrow> int \<Rightarrow> bool \<Rightarrow> 'p world \<Rightarrow> unit outcome \<times> 'p world" where
  "send_xmodem128_crc data max_failures progress_callback s =
     (if length data mod BLOCK_SIZE \<noteq> 0 then (Raised (InvalidInput (length data)), s)
      else
        let old_protocol = protocol s;
            s1 = s\<lparr>buffer := [], eof := False, protocol := StreamReaderProtocol\<rparr>
        in try_finally (transfer data max_failures progress_callback)
             (\<lambda>s'. s'\<lparr>protocol := old_protocol\<rparr>) s1)"

subsection \<open>Notions the statements about the transfer use\<close>

text \<open>
  The bytes the reader will see before the stream ends, the task is cancelled or
  the receiver falls silent, however they are cut into chunks; and with what is
  already buffered, the bytes pending for the reads to come.
\<close>

fun stream_of :: "event list \<Rightarrow> bytes" where
  "stream_of [] = []"
| "stream_of (Recv bs # evs) = bs @ stream_of evs"
| "stream_of (Eof # evs) = []"
| "stream_of (Cancel # evs) = []"

definition pending :: "'p world \<Rightarrow> bytes" where
  "pending s = buffer s @ (if eof s then [] else stream_of (incoming s))"

text \<open>
  The trace of one item (a packet or the end-of-transmission byte) sent and answered
  by the bytes \<open>rs\<close>, one answer per transmission; the answers \<open>k\<close> times \<open>NAK\<close> and
  then \<open>ACK\<close>; the writes and the progress calls of a trace.
\<close>

definition exchange :: "bytes \<Rightarrow> bytes \<Rightarrow> action list" where
  "exchange wire rs = concat (map (\<lambda>r. [Wrote wire, ReadExactly [r]]) rs)"

definition naks_then :: "nat \<Rightarrow> byte \<Rightarrow> bytes" where
  "naks_then k r = replicate k NAK @ [r]"

fun writes_of :: "action list \<Rightarrow> bytes list" where
  "writes_of [] = []"
| "writes_of (Wrote bs # as) = bs # writes_of as"
| "writes_of (a # as) = writes_of as"

fun progress_of :: "action list \<Rightarrow> (int \<times> int) list" where
  "progress_of [] = []"
| "progress_of (Progress sent total_bytes # as) = (sent, total_bytes) # progress_of as"
| "progress_of (a # as) = progress_of as"

text \<open>
  The 133 bytes the wire format prescribes for the block with 0-based index \<open>i\<close>:
  \<open>SOH\<close>, the sequence number \<open>(i + 1) mod 256\<close>, 255 minus the sequence number, the
  payload \<open>data[128 * i : 128 * (i + 1)]\<close>, and the CRC of the payload, high byte
  first.
\<close>

definition block_payload :: "bytes \<Rightarrow> nat \<Rightarrow> bytes" where
  "block_payload data i = take 128 (drop (128 * i) data)"

definition block_wire :: "bytes \<Rightarrow> nat \<Rightarrow> bytes" where
  "block_wire data i =
     [0x01, of_nat ((i + 1) mod 256), of_nat (255 - (i + 1) mod 256)]
     @ block_payload data i
     @ [word_of_int (crc16_ccitt (block_payload data i) div 256),
        word_of_int (crc16_ccitt (block_payload data i) mod 256)]"

text \<open>
  How \<open>send_xmodem128_crc_data\<close> ends on an answer that is not \<open>NAK\<close>: it returns on
  \<open>ACK\<close>, raises \<open>ReceiverCancelled\<close> on \<open>CAN\<close>, and raises the \<open>ValueError\<close> for an
  invalid response on every other byte.
\<close>

definition answer_outcome :: "byte \<Rightarrow> unit outcome" where
  "answer_outcome r =
     (if r = ACK then Returned ()
      else if r = CAN then Raised ReceiverCancelled
      else Raised (ProtocolViolation [r]))"

text \<open>
  The answers of a receiver that accepts every item, the \<open>i\<close>-th after \<open>ks ! i\<close>
  refusals; the trace of the blocks from index \<open>i\<close> on so answered, each followed by
  its progress call when a callback is supplied; and the trace of the handshake: the
  chunk read up to the \<open>C\<close>, the first progress call, and the bytes dropped from the
  buffer.
\<close>

definition answers :: "nat list \<Rightarrow> bytes" where
  "answers ks = concat (map (\<lambda>k. naks_then k ACK) ks)"

definition progress_call :: "bool \<Rightarrow> int \<Rightarrow> int \<Rightarrow> action list" where
  "progress_call progress_callback sent total_bytes =
     (if progress_callback then [Progress sent total_bytes] else [])"

fun blocks_trace :: "bytes \<Rightarrow> bool \<Rightarrow> nat \<Rightarrow> nat list \<Rightarrow> action list" where
  "blocks_trace data progress_callback i [] = []"
| "blocks_trace data progress_callback i (k # ks) =
     exchange (block_wire data i) (naks_then k ACK)
     @ progress_call progress_callback ((int i + 1) * 128) (int (length data))
     @ blocks_trace data progress_callback (Suc i) ks"

definition handshake_trace :: "bytes \<Rightarrow> bool \<Rightarrow> bytes \<Rightarrow> bytes \<Rightarrow> action list" where
  "handshake_trace data progress_callback chunk dropped =
     [ReadUntil chunk] @ progress_call progress_callback 0 (int (length data))
     @ [Cleared dropped]"

text \<open>
  The first step of \<open>send_xmodem128_crc\<close> once the length is accepted: a new reader,
  the transport's protocol swapped for the reader's, and the wait for the \<open>C\<close>. And
  the item with index \<open>j\<close> of a transfer: a block, or after the last block the
  end-of-transmission byte.
\<close>

definition handshake :: "'p world \<Rightarrow> bytes outcome \<times> 'p world" where
  "handshake s =
     readuntil 0x43 (s\<lparr>buffer := [], eof := False, protocol := StreamReaderProtocol\<rparr>)"

definition item_wire :: "bytes \<Rightarrow> nat \<Rightarrow> bytes" where
  "item_wire data j = (if j < length data div 128 then block_wire data j else [EOT])"

text \<open>
  The writes of a transfer whose item \<open>j\<close> is refused \<open>ks ! j\<close> times before it is
  accepted: item \<open>j\<close> is written \<open>ks ! j + 1\<close> times, the items in order.
\<close>

definition transmissions :: "bytes \<Rightarrow> nat list \<Rightarrow> bytes list" where
  "transmissions data ks =
     concat (map (\<lambda>(j, k). replicate (Suc k) (item_wire data j)) (zip [0..<length ks] ks))"

text \<open>A world for the examples: nothing done yet, a protocol \<open>p\<close> installed.\<close>

definition start :: "'p \<Rightarrow> event list \<Rightarrow> 'p world" where
  "start p evs = \<lparr>protocol = Installed p, incoming = evs, buffer = [], eof = False, trace = []\<rparr>"

text \<open>
  The ways a transfer that has passed the length check can end: it returns, it
  raises one of the three protocol failures, the task is cancelled in a read, the
  stream ends or overruns the reader's limit in a read, or it stays suspended.
\<close>

definition transfer_exits :: "int \<Rightarrow> unit outcome set" where
  "transfer_exits max_failures =
     {Returned (), Suspended, Raised (TooManyFailures max_failures), Raised ReceiverCancelled,
      Raised CancelledError, Raised IncompleteReadError, Raised LimitOverrunError}
     \<union> range (\<lambda>b. Raised (ProtocolViolation [b]))"

section \<open>common.py: StateMachine\<close>

text \<open>
  \<^verbatim>\<open>
  class StateMachine:
      def __init__(self, states: set[str], initial: str) -> None:
          if initial not in states:
              raise ValueError(f"Unknown initial state {initial!r}: expected {states!r}")
          self._states = states
          self._state = initial
          self._futures_for_state = collections.defaultdict(list)

      @property
      def state(self) -> str:
          return self._state

      @state.setter
      def state(self, state: str) -> None:
          if state not in self._states:
              raise ValueError(f"Unknown state {state!r}: expected {self._states!r}")
          self._state = state
          for future in self._futures_for_state[state]:
              future.set_result(None)

      async def wait_for_state(self, state: str) -> None:
          assert state in self._states
          if self.state == state:
              return
          future = asyncio.get_running_loop().create_future()
          self._futures_for_state[state].append(future)
          try:
              return await future
          finally:
              self._futures_for_state[state].remove(future)
  \<close>
\<close>

subsection \<open>The messages\<close>

text \<open>
  A state name is a \<open>str\<close> of code points below 256. \<open>repr\<close> of a \<open>str\<close> quotes it with
  \<open>'\<close>, or with \<open>"\<close> when it contains \<open>'\<close> and no \<open>"\<close>; it escapes the backslash, the quote,
  tab, newline and carriage return, and writes every other code point that is not
  printable (below 0x20, from 0x7F to 0xA0, and 0xAD) as \<open>\xhh\<close>.

  The set of declared states is the list of its elements in the order in which the
  set is iterated, which is the order \<open>repr\<close> of the set follows; \<open>repr\<close> of the empty set
  is \<open>set()\<close>.
\<close>

definition repr_char :: "char \<Rightarrow> char \<Rightarrow> string" where
  "repr_char quote ch =
     (let c = (of_char ch :: nat) in
      if ch = quote \<or> c = 0x5C then [CHR 0x5C, ch]
      else if c = 0x09 then [CHR 0x5C, CHR ''t'']
      else if c = 0x0A then [CHR 0x5C, CHR ''n'']
      else if c = 0x0D then [CHR 0x5C, CHR ''r'']
      else if c < 0x20 \<or> (0x7F \<le> c \<and> c \<le> 0xA0) \<or> c = 0xAD
        then [CHR 0x5C, CHR ''x'', hex_digit (c div 16), hex_digit (c mod 16)]
      else [ch])"

definition repr_str :: "string \<Rightarrow> string" where
  "repr_str s =
     (let quote = (if CHR 0x27 \<in> set s \<and> CHR 0x22 \<notin> set s then CHR 0x22 else CHR 0x27)
      in [quote] @ concat (map (repr_char quote) s) @ [quote])"

fun join :: "string \<Rightarrow> string list \<Rightarrow> string" where
  "join sep [] = []"
| "join sep [x] = x"
| "join sep (x # y # rest) = x @ sep @ join sep (y # rest)"

definition repr_set :: "string list \<Rightarrow> string" where
  "repr_set elements =
     (if elements = [] then ''set()''
      else ''{'' @ join '', '' (map repr_str elements) @ ''}'')"

definition UnknownInitialState :: "string \<Rightarrow> string list \<Rightarrow> exn" where
  "UnknownInitialState initial states' =
     ValueError (''Unknown initial state '' @ repr_str initial @ '': expected ''
                 @ repr_set states')"

definition UnknownState :: "string \<Rightarrow> string list \<Rightarrow> exn" where
  "UnknownState state' states' =
     ValueError (''Unknown state '' @ repr_str state' @ '': expected '' @ repr_set states')"

subsection \<open>The machine and the futures of the loop\<close>

text \<open>
  A future is an object of the running loop, known by its identity: the loop's
  futures are numbered in the order of their creation, and the state of each is
  kept in a store, because the machine and the waiting task hold the same object.
  A future is pending until \<open>set_result\<close> finishes it or \<open>cancel\<close> cancels it;
  \<open>set_result\<close> on a future that is not pending raises \<open>InvalidStateError\<close>.

  \<open>_futures_for_state\<close> is a \<open>defaultdict(list)\<close>: looking a missing key up stores
  an empty list under it and returns that list.
\<close>

datatype future_state = PENDING | CANCELLED | FINISHED

type_synonym future = nat

record StateMachine =
  states :: "string list"
  state :: string
  futures_for_state :: "string \<rightharpoonup> future list"

record machine_world =
  self :: StateMachine
  futures :: "future \<Rightarrow> future_state"
  created :: nat

definition getitem ::
  "string \<Rightarrow> (string \<rightharpoonup> future list) \<Rightarrow> future list \<times> (string \<rightharpoonup> future list)" where
  "getitem key d = (case d key of Some v \<Rightarrow> (v, d) | None \<Rightarrow> ([], d(key \<mapsto> [])))"

definition create_future :: "machine_world \<Rightarrow> future \<times> machine_world" where
  "create_future w =
     (created w, w\<lparr>futures := (futures w)(created w := PENDING), created := created w + 1\<rparr>)"

definition set_result :: "future \<Rightarrow> machine_world \<Rightarrow> unit outcome \<times> machine_world" where
  "set_result future w =
     (if futures w future \<noteq> PENDING then (Raised InvalidStateError, w)
      else (Returned (), w\<lparr>futures := (futures w)(future := FINISHED)\<rparr>))"

subsection \<open>__init__\<close>

definition StateMachine_init :: "string list \<Rightarrow> string \<Rightarrow> exn + StateMachine" where
  "StateMachine_init states' initial =
     (if initial \<notin> set states' then Inl (UnknownInitialState initial states')
      else Inr \<lparr>states = states', state = initial, futures_for_state = Map.empty\<rparr>)"

text \<open>A machine on a loop that has created no future yet.\<close>

definition on_loop :: "StateMachine \<Rightarrow> machine_world" where
  "on_loop m = \<lparr>self = m, futures = (\<lambda>_. PENDING), created = 0\<rparr>"

subsection \<open>The setter of state\<close>

text \<open>
  The loop over the futures registered for the new state stops at the first
  \<open>set_result\<close> that raises; the futures before it stay finished and the state stays
  set.
\<close>

fun set_results :: "future list \<Rightarrow> machine_world \<Rightarrow> unit outcome \<times> machine_world" where
  "set_results [] w = (Returned (), w)"
| "set_results (future # rest) w =
     (case set_result future w of
        (Returned _, w') \<Rightarrow> set_results rest w'
      | (Raised e, w') \<Rightarrow> (Raised e, w')
      | (Suspended, w') \<Rightarrow> (Suspended, w'))"

definition state_setter :: "string \<Rightarrow> machine_world \<Rightarrow> unit outcome \<times> machine_world" where
  "state_setter state' w =
     (if state' \<notin> set (states (self w))
        then (Raised (UnknownState state' (states (self w))), w)
      else
        let w1 = w\<lparr>self := (self w)\<lparr>state := state'\<rparr>\<rparr>;
            (registered, d) = getitem state' (futures_for_state (self w1));
            w2 = w1\<lparr>self := (self w1)\<lparr>futures_for_state := d\<rparr>\<rparr>
        in set_results registered w2)"

subsection \<open>wait_for_state\<close>

text \<open>
  \<open>list.remove\<close> removes the first occurrence and raises \<open>ValueError\<close> when there is
  none. \<open>await_future\<close> is the \<open>try\<close> statement: while the future is pending the task
  is suspended in the \<open>await\<close> and the \<open>finally\<close> clause has not run; once the future
  is finished the \<open>await\<close> returns, once it is cancelled (cancelling the waiting task
  cancels the future it awaits) the \<open>await\<close> raises \<open>CancelledError\<close>, and either way
  the \<open>finally\<close> clause removes the future from the list of its state. A task that
  was suspended is resumed by \<open>await_future\<close> on the same future.
\<close>

definition remove_future ::
  "future \<Rightarrow> string \<Rightarrow> machine_world \<Rightarrow> unit outcome \<times> machine_world" where
  "remove_future future state' w =
     (let (registered, d) = getitem state' (futures_for_state (self w)) in
      if future \<in> set registered
        then (Returned (),
              w\<lparr>self := (self w)\<lparr>futures_for_state := d(state' \<mapsto> remove1 future registered)\<rparr>\<rparr>)
      else (Raised (ValueError ''list.remove(x): x not in list''),
            w\<lparr>self := (self w)\<lparr>futures_for_state := d\<rparr>\<rparr>))"

definition await_future ::
  "future \<Rightarrow> string \<Rightarrow> machine_world \<Rightarrow> unit outcome \<times> machine_world" where
  "await_future future state' w =
     (case futures w future of
        PENDING \<Rightarrow> (Suspended, w)
      | FINISHED \<Rightarrow> remove_future future state' w
      | CANCELLED \<Rightarrow>
          (case remove_future future state' w of
             (Returned _, w') \<Rightarrow> (Raised CancelledError, w')
           | (Raised e, w') \<Rightarrow> (Raised e, w')
           | (Suspended, w') \<Rightarrow> (Suspended, w')))"

definition wait_for_state :: "string \<Rightarrow> machine_world \<Rightarrow> unit outcome \<times> machine_world" where
  "wait_for_state state' w =
     (if state' \<notin> set (states (self w)) then (Raised AssertionError, w)
      else if state (self w) = state' then (Returned (), w)
      else
        let (future, w1) = create_future w;
            (registered, d) = getitem state' (futures_for_state (self w1));
            w2 = w1\<lparr>self := (self w1)\<lparr>futures_for_state := d(state' \<mapsto> registered @ [future])\<rparr>\<rparr>
        in await_future future state' w2)"

subsection \<open>Notions used in the statements\<close>

text \<open>The futures registered for a state, none for a key that was never looked up.\<close>

definition waiters :: "machine_world \<Rightarrow> string \<Rightarrow> future list" where
  "waiters w key = (case futures_for_state (self w) key of Some fs \<Rightarrow> fs | None \<Rightarrow> [])"

text \<open>Cancelling the task that waits on a pending future cancels the future.\<close>

definition cancel :: "future \<Rightarrow> machine_world \<Rightarrow> machine_world" where
  "cancel future w =
     (if futures w future = PENDING then w\<lparr>futures := (futures w)(future := CANCELLED)\<rparr> else w)"

text \<open>
  A machine with three declared states, idle, and three tasks suspended in
  \<open>wait_for_state\<close>: the first and the third wait for \<open>connected\<close>, the second for
  \<open>closed\<close>.
\<close>

definition three_waiters :: machine_world where
  "three_waiters =
     snd (wait_for_state ''connected''
       (snd (wait_for_state ''closed''
         (snd (wait_for_state ''connected''
           (on_loop \<lparr>states = [''idle'', ''connected'', ''closed''], state = ''idle'',
                     futures_for_state = Map.empty\<rparr>))))))"

section \<open>Properties of pad_to_multiple\<close>

lemma bytes_repeat_single: "bytes_repeat [p] k = replicate (nat k) p"
  by (induction "nat k" arbitrary: k) (auto simp: bytes_repeat_def replicate_append_same)

lemma next_multiple_above:
  fixes m l :: int
  assumes "0 < m"
  shows "l < m * (l div m + 1)"
proof -
  have "m * (l div m) + l mod m = l" by (rule mult_div_mod_eq)
  moreover have "l mod m < m" using assms by simp
  ultimately have "l < m * (l div m) + m" by linarith
  then show ?thesis by (simp add: distrib_left)
qed

lemma next_multiple_least:
  fixes m l j :: int
  assumes "0 < m" "m dvd j" "l < j"
  shows "m * (l div m + 1) \<le> j"
proof -
  from assms(2) obtain q where j: "j = m * q" by (auto simp: dvd_def)
  have "m * (l div m) + l mod m = l" by (rule mult_div_mod_eq)
  moreover have "0 \<le> l mod m" using assms(1) by simp
  ultimately have "m * (l div m) \<le> l" by linarith
  with assms(3) j have "m * (l div m) < m * q" by linarith
  with assms(1) have "l div m < q" by (simp add: mult_less_cancel_left_pos)
  then have "l div m + 1 \<le> q" by simp
  with assms(1) have "m * (l div m + 1) \<le> m * q" by (simp only: mult_le_cancel_left_pos)
  with j show ?thesis by simp
qed

text \<open>
  C10. For every byte string \<open>data\<close>, every multiple \<open>m > 0\<close> and every one-byte
  padding \<open>[p]\<close>: when \<open>len(data)\<close> is a multiple of \<open>m\<close> the result is \<open>data\<close>
  itself; otherwise it is \<open>data\<close> followed by copies of \<open>p\<close> up to
  \<open>m * (len(data) div m + 1)\<close>, the smallest multiple of \<open>m\<close> strictly greater than
  \<open>len(data)\<close>. In both cases the result starts with \<open>data\<close> and its length is the
  least multiple of \<open>m\<close> that is at least \<open>len(data)\<close>.
\<close>

theorem pad_to_multiple_least_multiple:
  assumes "0 < m"
  shows "(int (length data) mod m = 0 \<longrightarrow> pad_to_multiple data m [p] = Inr data)
       \<and> (int (length data) mod m \<noteq> 0 \<longrightarrow>
            (\<exists>k. pad_to_multiple data m [p] = Inr (data @ replicate k p)
               \<and> int (length data + k) = m * (int (length data) div m + 1)
               \<and> int (length data) < m * (int (length data) div m + 1)
               \<and> (\<forall>j. m dvd j \<and> int (length data) < j
                     \<longrightarrow> m * (int (length data) div m + 1) \<le> j)))
       \<and> (\<exists>r. pad_to_multiple data m [p] = Inr r
               \<and> take (length data) r = data
               \<and> m dvd int (length r)
               \<and> int (length data) \<le> int (length r)
               \<and> (\<forall>j. m dvd j \<and> int (length data) \<le> j \<longrightarrow> int (length r) \<le> j))"
proof -
  define l where "l = int (length data)"
  define t where "t = m * (l div m + 1)"
  have above: "l < t"
    unfolding t_def using assms by (rule next_multiple_above)
  have least: "t \<le> j" if "m dvd j" "l < j" for j
    unfolding t_def using assms that by (rule next_multiple_least)
  have exact: "pad_to_multiple data m [p] = Inr data" if "l mod m = 0"
    using that assms by (simp add: pad_to_multiple_def l_def)
  have padded: "pad_to_multiple data m [p] = Inr (data @ replicate (nat (t - l)) p)"
    if "l mod m \<noteq> 0"
    using that assms
    by (simp add: pad_to_multiple_def l_def t_def Let_def bytes_repeat_single)
  have len: "int (length data + nat (t - l)) = t"
    using above by (simp add: l_def)
  have first: "l mod m = 0 \<longrightarrow> pad_to_multiple data m [p] = Inr data"
    using exact by simp
  have second: "l mod m \<noteq> 0 \<longrightarrow>
      (\<exists>k. pad_to_multiple data m [p] = Inr (data @ replicate k p)
         \<and> int (length data + k) = t \<and> l < t
         \<and> (\<forall>j. m dvd j \<and> l < j \<longrightarrow> t \<le> j))"
    using padded len above least by blast
  have third: "\<exists>r. pad_to_multiple data m [p] = Inr r
       \<and> take (length data) r = data \<and> m dvd int (length r)
       \<and> l \<le> int (length r)
       \<and> (\<forall>j. m dvd j \<and> l \<le> j \<longrightarrow> int (length r) \<le> j)"
  proof (cases "l mod m = 0")
    case True
    then have "m dvd l" by (simp add: dvd_eq_mod_eq_0)
    with exact [OF True] show ?thesis by (auto simp: l_def)
  next
    case False
    have dvd_t: "m dvd t" by (simp add: t_def)
    have "t \<le> j" if "m dvd j" "l \<le> j" for j
    proof -
      from that False have "l \<noteq> j" by (auto simp: dvd_eq_mod_eq_0)
      with that least show ?thesis by simp
    qed
    moreover have "int (length (data @ replicate (nat (t - l)) p)) = t"
      using len by simp
    ultimately show ?thesis
      using padded [OF False] dvd_t above
      by (intro exI [of _ "data @ replicate (nat (t - l)) p"]) simp
  qed
  from first second third show ?thesis
    unfolding l_def t_def by blast
qed

theorem pad_to_multiple_least_multiple_witness:
  "(0::int) < 4
   \<and> pad_to_multiple [1, 2, 3, 4, 5] 4 [255] = Inr [1, 2, 3, 4, 5, 255, 255, 255]
   \<and> pad_to_multiple [1, 2, 3, 4] 4 [255] = Inr [1, 2, 3, 4]"
proof -
  have pos: "(0::int) < 4" by simp
  from pad_to_multiple_least_multiple [OF pos, of "[1, 2, 3, 4, 5]" 255]
  obtain k where "pad_to_multiple [1, 2, 3, 4, 5] 4 [255] = Inr ([1, 2, 3, 4, 5] @ replicate k 255)"
    and "int (length [1, 2, 3, 4, 5 :: byte] + k) = 4 * (int (length [1, 2, 3, 4, 5 :: byte]) div 4 + 1)"
    by auto
  moreover from this(2) have "k = 3" by simp
  moreover from pad_to_multiple_least_multiple [OF pos, of "[1, 2, 3, 4]" 255]
  have "pad_to_multiple [1, 2, 3, 4] 4 [255] = Inr [1, 2, 3, 4]" by simp
  ultimately show ?thesis
    by (simp add: numeral_3_eq_3)
qed

section \<open>Properties of the checksum engine\<close>

lemma top_bit_test: "(w AND 0x8000 \<noteq> 0) = bit w 15" for w :: "16 word"
proof -
  have "(0x8000 :: 16 word) = push_bit 15 1" by simp
  then show ?thesis
    by (simp only: bit_iff_and_push_bit_not_eq_0)
qed


lemma register_shift_split:
  "register_shift poly (r XOR x) = shift_in poly (bit x 15) r XOR push_bit 1 x"
proof -
  have c: "((r XOR x) AND 0x8000 \<noteq> 0) = (bit r 15 \<noteq> bit x 15)"
    by (simp only: top_bit_test bit_xor_iff)
  have "register_shift poly (r XOR x) =
      (if bit r 15 \<noteq> bit x 15 then (push_bit 1 r XOR push_bit 1 x) XOR poly
       else push_bit 1 r XOR push_bit 1 x)"
    by (simp only: register_shift_def c push_bit_xor)
  also have "\<dots> = shift_in poly (bit x 15) r XOR push_bit 1 x"
    by (simp only: shift_in_def xor.assoc xor.commute [of "push_bit 1 x"] if_distrib [of "\<lambda>w. w XOR push_bit 1 x"])
  finally show ?thesis .
qed

lemma upt_Suc_shift: "[0..<Suc k] = 0 # map Suc [0..<k]"
  by (simp only: upt_conv_Cons [OF zero_less_Suc] map_Suc_upt)

lemma bit_push_bit_1_top:
  "i < 15 \<Longrightarrow> bit (push_bit 1 x) (15 - i) = bit x (15 - Suc i)" for x :: "16 word"
proof -
  assume "i < 15"
  then have *: "1 \<le> 15 - i" "15 - i < 16" "15 - i - 1 = 15 - Suc i" by simp_all
  have "bit (push_bit 1 x) (15 - i)
      = (1 \<le> 15 - i \<and> possible_bit TYPE(16 word) (15 - i) \<and> bit x (15 - i - 1))"
    by (rule bit_push_bit_iff)
  with * show ?thesis by simp
qed

lemma register_shift_funpow:
  "k \<le> 16 \<Longrightarrow>
   (register_shift poly ^^ k) (r XOR x)
     = fold (shift_in poly) (map (\<lambda>i. bit x (15 - i)) [0..<k]) r XOR push_bit k x"
proof (induction k arbitrary: r x)
  case 0
  show ?case by simp
next
  case (Suc k)
  then have k: "k \<le> 16" by simp
  have bits: "map (\<lambda>i. bit (push_bit 1 x) (15 - i)) [0..<k] = map (\<lambda>i. bit x (15 - Suc i)) [0..<k]"
    using Suc.prems by (intro map_cong refl bit_push_bit_1_top) simp
  have "(register_shift poly ^^ Suc k) (r XOR x)
      = (register_shift poly ^^ k) (shift_in poly (bit x 15) r XOR push_bit 1 x)"
    by (simp only: funpow_Suc_right o_apply register_shift_split)
  also have "\<dots> = fold (shift_in poly) (map (\<lambda>i. bit (push_bit 1 x) (15 - i)) [0..<k])
        (shift_in poly (bit x 15) r) XOR push_bit k (push_bit 1 x)"
    by (rule Suc.IH [OF k])
  also have "\<dots> = fold (shift_in poly) (map (\<lambda>i. bit x (15 - i)) [0..<Suc k]) r
        XOR push_bit (Suc k) x"
    by (simp only: bits upt_Suc_shift list.map map_map o_def fold.simps push_bit_push_bit
        diff_zero add.commute [of k 1] plus_1_eq_Suc)
  finally show ?case .
qed


lemma upt_8: "[0..<8] = [0, 1, 2, 3, 4, 5, 6, 7]"
  by (simp add: upt_rec)

lemma process_byte_serial:
  "process_byte poly r b = fold (shift_in poly) (map (bit b) (rev [0..<8])) r"
proof -
  have top: "map (\<lambda>i. bit (push_bit 8 (ucast b :: 16 word)) (15 - i)) [0..<8]
      = map (bit b) (rev [0..<8])"
    by (simp add: upt_8 bit_push_bit_iff bit_ucast_iff)
  have out: "push_bit 8 (push_bit 8 (ucast b :: 16 word)) = 0"
    by (simp add: push_bit_push_bit)
  have "process_byte poly r b
      = fold (shift_in poly) (map (\<lambda>i. bit (push_bit 8 (ucast b :: 16 word)) (15 - i)) [0..<8]) r
        XOR push_bit 8 (push_bit 8 (ucast b))"
    unfolding process_byte_def by (rule register_shift_funpow) simp
  then show ?thesis
    by (simp only: top out xor.right_neutral)
qed

lemma reversed_byte_bits: "map (bit (word_reverse b)) (rev [0..<8]) = map (bit b) [0..<8]"
  for b :: byte
  by (simp add: upt_8 bit_word_reverse_iff)

lemma update_serial:
  "update cfg data r
     = fold (shift_in (polynomial cfg)) (message_bits (reverse_input cfg) data) r"
proof (induction data arbitrary: r)
  case Nil
  show ?case by (simp add: update_def message_bits_def)
next
  case (Cons b data)
  have "update cfg (b # data) r
      = update cfg data
          (process_byte (polynomial cfg) r (if reverse_input cfg then word_reverse b else b))"
    by (simp add: update_def)
  also have "\<dots> = fold (shift_in (polynomial cfg)) (message_bits (reverse_input cfg) data)
      (fold (shift_in (polynomial cfg))
         (map (bit b) (if reverse_input cfg then [0..<8] else rev [0..<8])) r)"
    by (simp only: Cons.IH process_byte_serial reversed_byte_bits if_distrib [of "\<lambda>w. map (bit w) (rev [0..<8])"]
        if_distrib [of "map (bit b)"] if_distrib [of "\<lambda>bs. fold (shift_in (polynomial cfg)) bs r"]
        if_distrib [of "process_byte (polynomial cfg) r"])
  also have "\<dots> = fold (shift_in (polynomial cfg)) (message_bits (reverse_input cfg) (b # data)) r"
    by (simp add: message_bits_def)
  finally show ?case .
qed

lemma checksum_reference:
  "checksum cfg data
     = uint (crc16_reference (polynomial cfg) (init_value cfg) (reverse_input cfg)
               (reverse_output cfg) (final_xor_value cfg) data)"
  by (simp add: checksum_def digest_def crc16_reference_def update_serial)


lemma low_bit_test: "(w AND 1 \<noteq> 0) = bit w 0" for w :: "16 word"
  by (simp add: and_one_eq bit_0 mod_2_eq_odd)

lemma word_reverse_xor:
  "word_reverse (a XOR b) = word_reverse a XOR word_reverse b" for a b :: "'a::len word"
  by (rule bit_word_eqI) (simp add: bit_word_reverse_iff bit_xor_iff)

lemma word_reverse_push_bit_1:
  "word_reverse (push_bit 1 r) = drop_bit 1 (word_reverse r)" for r :: "16 word"
proof (rule bit_word_eqI)
  fix n assume "n < LENGTH(16)"
  then have n: "n < 16" by simp
  have "bit (push_bit 1 r) (16 - Suc n)
      = (1 \<le> 16 - Suc n \<and> possible_bit TYPE(16 word) (16 - Suc n) \<and> bit r (16 - Suc n - 1))"
    by (rule bit_push_bit_iff)
  moreover have "bit (drop_bit 1 (word_reverse r)) n = bit (word_reverse r) (1 + n)"
    by (simp add: bit_drop_bit_eq)
  ultimately show "bit (word_reverse (push_bit 1 r)) n = bit (drop_bit 1 (word_reverse r)) n"
    using n by (auto simp: bit_word_reverse_iff)
qed

lemma word_reverse_poly: "word_reverse (0x1021 :: 16 word) = 0x8408"
  by code_simp

lemma word_reverse_ones: "word_reverse (0xFFFF :: 16 word) = 0xFFFF"
  by code_simp

lemma register_shift_reversed:
  "word_reverse (register_shift 0x1021 r) = lsb_shift (word_reverse r)"
proof -
  have "bit (word_reverse r) 0 = bit r 15"
    by (simp add: bit_word_reverse_iff)
  then show ?thesis
    by (simp only: register_shift_def lsb_shift_def top_bit_test low_bit_test
        word_reverse_xor word_reverse_push_bit_1 word_reverse_poly if_distrib [of word_reverse])
qed

lemma register_shift_funpow_reversed:
  "word_reverse ((register_shift 0x1021 ^^ k) r) = (lsb_shift ^^ k) (word_reverse r)"
  by (induction k) (simp_all add: register_shift_reversed)

lemma reversed_byte_into_top:
  "word_reverse (push_bit 8 (ucast (word_reverse b) :: 16 word)) = ucast b" for b :: byte
proof (rule bit_word_eqI)
  fix n assume "n < LENGTH(16)"
  then have n: "n < 16" by simp
  have "bit (push_bit 8 (ucast (word_reverse b) :: 16 word)) (16 - Suc n)
      = (8 \<le> 16 - Suc n \<and> possible_bit TYPE(16 word) (16 - Suc n)
          \<and> bit (ucast (word_reverse b) :: 16 word) (16 - Suc n - 8))"
    by (rule bit_push_bit_iff)
  note pushed = this
  show "bit (word_reverse (push_bit 8 (ucast (word_reverse b) :: 16 word))) n
      = bit (ucast b :: 16 word) n"
  proof (cases "n < 8")
    case True
    then have "16 - Suc n - 8 = 7 - n" "8 \<le> 16 - Suc n" "7 - (7 - n) = n" by simp_all
    with True n pushed show ?thesis
      by (auto simp: bit_word_reverse_iff bit_ucast_iff)
  next
    case False
    then have "\<not> 8 \<le> 16 - Suc n" by simp
    moreover from False have "\<not> bit b n"
      by (auto dest: bit_imp_le_length)
    ultimately show ?thesis
      using n pushed by (simp add: bit_word_reverse_iff bit_ucast_iff)
  qed
qed

lemma update_reversed:
  "reverse_input cfg \<Longrightarrow> polynomial cfg = 0x1021 \<Longrightarrow>
   word_reverse (update cfg data r)
     = fold (\<lambda>b r. (lsb_shift ^^ 8) (r XOR ucast b)) data (word_reverse r)"
proof (induction data arbitrary: r)
  case Nil
  show ?case by (simp add: update_def)
next
  case (Cons b data)
  have step: "word_reverse (process_byte 0x1021 r (word_reverse b))
      = (lsb_shift ^^ 8) (word_reverse r XOR ucast b)"
    by (simp only: process_byte_def register_shift_funpow_reversed word_reverse_xor
        reversed_byte_into_top)
  have "update cfg (b # data) r = update cfg data (process_byte 0x1021 r (word_reverse b))"
    using Cons.prems by (simp add: update_def)
  then show ?case
    using Cons.IH [OF Cons.prems] step by simp
qed

lemma checksum_lsb_first:
  assumes "reverse_input cfg" "reverse_output cfg" "polynomial cfg = 0x1021"
  shows "checksum cfg data
     = uint (crc16_lsb_first (word_reverse (init_value cfg)) (final_xor_value cfg) data)"
  using assms update_reversed [of cfg data "init_value cfg"]
  by (simp add: checksum_def digest_def crc16_lsb_first_def)

lemma reference_msb_first:
  "crc16_reference poly init False False xorout data
     = fold (\<lambda>b r. process_byte poly r b) data init XOR xorout"
  using update_serial [of "\<lparr>polynomial = poly, init_value = init, final_xor_value = xorout,
      reverse_input = False, reverse_output = False\<rparr>" data init]
  by (simp add: crc16_reference_def update_def)

lemma reference_lsb_first:
  "crc16_reference 0x1021 init True True xorout data
     = crc16_lsb_first (word_reverse init) xorout data"
proof -
  let ?cfg = "\<lparr>polynomial = 0x1021, init_value = init, final_xor_value = xorout,
      reverse_input = True, reverse_output = True\<rparr>"
  have "uint (crc16_reference 0x1021 init True True xorout data)
      = uint (crc16_lsb_first (word_reverse init) xorout data)"
    using checksum_reference [of ?cfg data] checksum_lsb_first [of ?cfg data] by simp
  then show ?thesis by (simp only: word_uint_eq_iff)
qed

lemma word_reverse_zero: "word_reverse (0 :: 16 word) = 0"
  by code_simp


subsection \<open>Check values\<close>

lemma msb_first_check_from_zero:
  "fold (\<lambda>b r. process_byte 0x1021 r b) check_string 0x0000 = 0x31C3"
proof -
  have s1: "process_byte 0x1021 0x0000 0x31 = 0x2672"
    by code_simp
  have s2: "process_byte 0x1021 0x2672 0x32 = 0x20B5"
    by code_simp
  have s3: "process_byte 0x1021 0x20B5 0x33 = 0x9752"
    by code_simp
  have s4: "process_byte 0x1021 0x9752 0x34 = 0xD789"
    by code_simp
  have s5: "process_byte 0x1021 0xD789 0x35 = 0x546C"
    by code_simp
  have s6: "process_byte 0x1021 0x546C 0x36 = 0x20E4"
    by code_simp
  have s7: "process_byte 0x1021 0x20E4 0x37 = 0x86D6"
    by code_simp
  have s8: "process_byte 0x1021 0x86D6 0x38 = 0x9015"
    by code_simp
  have s9: "process_byte 0x1021 0x9015 0x39 = 0x31C3"
    by code_simp
  show ?thesis
    unfolding check_string_def
    by (simp only: fold_simps s1 s2 s3 s4 s5 s6 s7 s8 s9)
qed

lemma msb_first_check_from_ones:
  "fold (\<lambda>b r. process_byte 0x1021 r b) check_string 0xFFFF = 0x29B1"
proof -
  have s1: "process_byte 0x1021 0xFFFF 0x31 = 0xC782"
    by code_simp
  have s2: "process_byte 0x1021 0xC782 0x32 = 0x3DBA"
    by code_simp
  have s3: "process_byte 0x1021 0x3DBA 0x33 = 0x5BCE"
    by code_simp
  have s4: "process_byte 0x1021 0x5BCE 0x34 = 0x5349"
    by code_simp
  have s5: "process_byte 0x1021 0x5349 0x35 = 0x4560"
    by code_simp
  have s6: "process_byte 0x1021 0x4560 0x36 = 0x2EF4"
    by code_simp
  have s7: "process_byte 0x1021 0x2EF4 0x37 = 0x7718"
    by code_simp
  have s8: "process_byte 0x1021 0x7718 0x38 = 0xA12B"
    by code_simp
  have s9: "process_byte 0x1021 0xA12B 0x39 = 0x29B1"
    by code_simp
  show ?thesis
    unfolding check_string_def
    by (simp only: fold_simps s1 s2 s3 s4 s5 s6 s7 s8 s9)
qed

lemma lsb_first_check_from_ones:
  "fold (\<lambda>b r. (lsb_shift ^^ 8) (r XOR ucast b)) check_string 0xFFFF = 0x6F91"
proof -
  have s1: "(lsb_shift ^^ 8) (0xFFFF XOR ucast (0x31 :: byte)) = 0x2F8D"
    by code_simp
  have s2: "(lsb_shift ^^ 8) (0x2F8D XOR ucast (0x32 :: byte)) = 0x4D53"
    by code_simp
  have s3: "(lsb_shift ^^ 8) (0x4D53 XOR ucast (0x33 :: byte)) = 0x634B"
    by code_simp
  have s4: "(lsb_shift ^^ 8) (0x634B XOR ucast (0x34 :: byte)) = 0x8B13"
    by code_simp
  have s5: "(lsb_shift ^^ 8) (0x8B13 XOR ucast (0x35 :: byte)) = 0x44BF"
    by code_simp
  have s6: "(lsb_shift ^^ 8) (0x44BF XOR ucast (0x36 :: byte)) = 0x198D"
    by code_simp
  have s7: "(lsb_shift ^^ 8) (0x198D XOR ucast (0x37 :: byte)) = 0x1AC8"
    by code_simp
  have s8: "(lsb_shift ^^ 8) (0x1AC8 XOR ucast (0x38 :: byte)) = 0xF795"
    by code_simp
  have s9: "(lsb_shift ^^ 8) (0xF795 XOR ucast (0x39 :: byte)) = 0x6F91"
    by code_simp
  show ?thesis
    unfolding check_string_def
    by (simp only: fold_simps s1 s2 s3 s4 s5 s6 s7 s8 s9)
qed

lemma lsb_first_check_from_zero:
  "fold (\<lambda>b r. (lsb_shift ^^ 8) (r XOR ucast b)) check_string 0x0000 = 0x2189"
proof -
  have s1: "(lsb_shift ^^ 8) (0x0000 XOR ucast (0x31 :: byte)) = 0x200A"
    by code_simp
  have s2: "(lsb_shift ^^ 8) (0x200A XOR ucast (0x32 :: byte)) = 0xBDEB"
    by code_simp
  have s3: "(lsb_shift ^^ 8) (0xBDEB XOR ucast (0x33 :: byte)) = 0x5A78"
    by code_simp
  have s4: "(lsb_shift ^^ 8) (0x5A78 XOR ucast (0x34 :: byte)) = 0x8832"
    by code_simp
  have s5: "(lsb_shift ^^ 8) (0x8832 XOR ucast (0x35 :: byte)) = 0x7437"
    by code_simp
  have s6: "(lsb_shift ^^ 8) (0x7437 XOR ucast (0x36 :: byte)) = 0x11FD"
    by code_simp
  have s7: "(lsb_shift ^^ 8) (0x11FD XOR ucast (0x37 :: byte)) = 0x6947"
    by code_simp
  have s8: "(lsb_shift ^^ 8) (0x6947 XOR ucast (0x38 :: byte)) = 0x8B19"
    by code_simp
  have s9: "(lsb_shift ^^ 8) (0x8B19 XOR ucast (0x39 :: byte)) = 0x2189"
    by code_simp
  show ?thesis
    unfolding check_string_def
    by (simp only: fold_simps s1 s2 s3 s4 s5 s6 s7 s8 s9)
qed

lemma crc16_ccitt_check: "crc16_ccitt check_string = 0x31C3"
  using msb_first_check_from_zero
  by (simp add: crc16_ccitt_def checksum_def digest_def update_def CRC_CCITT_def)

lemma crc16_kermit_check: "crc16_kermit check_string = 0x906E"
  using lsb_first_check_from_ones checksum_lsb_first [of CRC_KERMIT check_string]
  by (simp add: crc16_kermit_def crc16_lsb_first_def CRC_KERMIT_def word_reverse_ones)

lemma crc16_xmodem_reference_check: "crc16_xmodem_reference check_string = 0x31C3"
  using msb_first_check_from_zero
  by (simp add: crc16_xmodem_reference_def reference_msb_first)

lemma crc16_ccitt_false_reference_check: "crc16_ccitt_false_reference check_string = 0x29B1"
  using msb_first_check_from_ones
  by (simp add: crc16_ccitt_false_reference_def reference_msb_first)

lemma crc16_kermit_reference_check: "crc16_kermit_reference check_string = 0x2189"
  using lsb_first_check_from_zero
  by (simp add: crc16_kermit_reference_def reference_lsb_first crc16_lsb_first_def
      word_reverse_zero)

lemma crc16_x25_reference_check: "crc16_x25_reference check_string = 0x906E"
  using lsb_first_check_from_ones
  by (simp add: crc16_x25_reference_def reference_lsb_first crc16_lsb_first_def
      word_reverse_ones)

text \<open>
  C7 (as amended). For every byte string, \<open>crc16_ccitt\<close> and \<open>crc16_kermit\<close>
  compute exactly the 16-bit CRCs that the two parameter sets define (shared
  polynomial \<open>0x1021\<close>; Variant A: initial value \<open>0x0000\<close>, no bit reversal, final
  XOR \<open>0x0000\<close>; Variant B: initial value \<open>0xFFFF\<close>, input and output
  bit-reversed, final XOR \<open>0xFFFF\<close>), bit for bit and including the reflect-in and
  reflect-out ordering: Variant B equals the right-shifting algorithm with the
  reversed polynomial. Under their catalogue names these are CRC-16/XMODEM (check
  value \<open>0x31C3\<close>) and CRC-16/X-25 (check value \<open>0x906E\<close>).
\<close>

theorem crc16_parameter_sets:
  "crc16_ccitt data = uint (crc16_reference 0x1021 0x0000 False False 0x0000 data)
   \<and> crc16_kermit data = uint (crc16_reference 0x1021 0xFFFF True True 0xFFFF data)
   \<and> crc16_ccitt data = uint (crc16_xmodem_reference data)
   \<and> crc16_kermit data = uint (crc16_x25_reference data)
   \<and> crc16_kermit data = uint (crc16_lsb_first 0xFFFF 0xFFFF data)
   \<and> crc16_ccitt check_string = 0x31C3
   \<and> crc16_kermit check_string = 0x906E"
proof -
  have a: "crc16_ccitt data = uint (crc16_reference 0x1021 0x0000 False False 0x0000 data)"
    using checksum_reference [of CRC_CCITT data]
    by (simp add: crc16_ccitt_def CRC_CCITT_def)
  have b: "crc16_kermit data = uint (crc16_reference 0x1021 0xFFFF True True 0xFFFF data)"
    using checksum_reference [of CRC_KERMIT data]
    by (simp add: crc16_kermit_def CRC_KERMIT_def)
  have c: "crc16_kermit data = uint (crc16_lsb_first 0xFFFF 0xFFFF data)"
    using checksum_lsb_first [of CRC_KERMIT data]
    by (simp add: crc16_kermit_def CRC_KERMIT_def word_reverse_ones)
  from a b c crc16_ccitt_check crc16_kermit_check show ?thesis
    by (simp only: crc16_xmodem_reference_def crc16_x25_reference_def simp_thms)
qed

text \<open>
  C7 as stated fails: the claim names CRC-16/CCITT-FALSE and CRC-16/KERMIT as the
  reference algorithms, and on the check string \<open>123456789\<close> neither function of
  the source returns what the algorithm of that name returns.
\<close>

theorem crc16_named_references_counterexample:
  "crc16_ccitt check_string \<noteq> uint (crc16_ccitt_false_reference check_string)
   \<and> crc16_kermit check_string \<noteq> uint (crc16_kermit_reference check_string)"
  by (simp add: crc16_ccitt_check crc16_kermit_check crc16_ccitt_false_reference_check
      crc16_kermit_reference_check)

section \<open>Properties of the block transfer engine\<close>

subsection \<open>The packet\<close>

lemma crc16_ccitt_range: "0 \<le> crc16_ccitt d \<and> crc16_ccitt d < 65536"
proof -
  have "uint w < 65536" for w :: "16 word"
    using uint_bounded [of w] by simp
  then show ?thesis
    by (simp add: crc16_ccitt_def checksum_def digest_def)
qed

lemma sequence_number: "(int i + 1) AND 0xFF = int ((i + 1) mod 256)"
proof -
  have "(int i + 1) AND 0xFF = (int i + 1) AND mask 8"
    by (simp add: mask_eq_exp_minus_1)
  also have "\<dots> = (int i + 1) mod 2 ^ 8"
    by (simp only: and_mask_mod_2p take_bit_eq_mod flip: take_bit_eq_mask)
  also have "\<dots> = int ((i + 1) mod 256)"
    by (simp add: zmod_int add.commute)
  finally show ?thesis .
qed

lemma serialize_make_packet: "serialize (make_packet data i) = Inr (block_wire data i)"
proof -
  let ?n = "(i + 1) mod 256"
  have n: "?n < 256" by simp
  have num: "number (make_packet data i) = int ?n"
    by (simp add: make_packet_def sequence_number)
  have pay: "payload (make_packet data i) = block_payload data i"
    by (simp add: make_packet_def slice_def block_payload_def BLOCK_SIZE_def)
  have header: "bytes_of_ints [uint SOH, int ?n, 0xFF - int ?n]
      = Inr [0x01, of_nat ?n, of_nat (255 - ?n)]"
    using n by (simp add: bytes_of_ints_def SOH_def of_nat_diff)
  have crc: "to_bytes_2_big (crc16_ccitt (block_payload data i))
      = Inr [word_of_int (crc16_ccitt (block_payload data i) div 256),
             word_of_int (crc16_ccitt (block_payload data i) mod 256)]"
    using crc16_ccitt_range [of "block_payload data i"]
    by (simp add: to_bytes_2_big_def)
  show ?thesis
    by (simp only: serialize_def num pay header crc block_wire_def sum.case)
qed

lemma block_payload_length:
  "i < length data div 128 \<Longrightarrow> length (block_payload data i) = 128"
proof -
  assume "i < length data div 128"
  then have "Suc i \<le> length data div 128" by simp
  then have "Suc i * 128 \<le> length data"
    by (simp only: less_eq_div_iff_mult_less_eq zero_less_numeral)
  then have "128 * (i + 1) \<le> length data" by (simp add: mult.commute)
  then show ?thesis
    by (simp add: block_payload_def)
qed

subsection \<open>The stream reader\<close>

declare readexactly_1.simps [simp del] readuntil.simps [simp del]

lemma log_fields [simp]:
  "trace (log a s) = trace s @ [a]"
  "protocol (log a s) = protocol s"
  "incoming (log a s) = incoming s"
  "buffer (log a s) = buffer s"
  "eof (log a s) = eof s"
  by (simp_all add: log_def)

lemma pending_log [simp]: "pending (log a s) = pending s"
  by (simp add: pending_def)

lemma readexactly_1_pending:
  assumes "pending s = b # rest"
  shows "\<exists>s'. readexactly_1 s = (Returned [b], s') \<and> pending s' = rest
           \<and> trace s' = trace s @ [ReadExactly [b]] \<and> protocol s' = protocol s"
  using assms
proof (induction s rule: readexactly_1.induct)
  case (1 s)
  show ?case
  proof (cases "buffer s")
    case (Cons b' rest')
    with "1.prems" have "b' = b" and "rest = rest' @ (if eof s then [] else stream_of (incoming s))"
      by (auto simp: pending_def)
    with Cons show ?thesis
      by (subst readexactly_1.simps) (simp add: pending_def)
  next
    case Nil
    with "1.prems" have live: "\<not> eof s" and st: "stream_of (incoming s) = b # rest"
      by (auto simp: pending_def split: if_splits)
    then obtain bs evs where inc: "incoming s = Recv bs # evs"
      by (cases "incoming s" rule: stream_of.cases) auto
    let ?s = "s\<lparr>incoming := evs, buffer := buffer s @ bs\<rparr>"
    have "pending ?s = b # rest"
      using Nil live st inc by (simp add: pending_def)
    with "1.IH"(1) [OF Nil live inc refl] obtain s' where
      "readexactly_1 ?s = (Returned [b], s')" "pending s' = rest"
      "trace s' = trace ?s @ [ReadExactly [b]]" "protocol s' = protocol ?s"
      by blast
    moreover have "readexactly_1 s = readexactly_1 ?s"
      using Nil live inc by (subst readexactly_1.simps) simp
    ultimately show ?thesis by simp
  qed
qed

subsection \<open>One item: send_xmodem128_crc_data\<close>

lemma exchange_Nil [simp]: "exchange wire [] = []"
  by (simp add: exchange_def)

lemma exchange_Cons: "exchange wire (r # rs) = [Wrote wire, ReadExactly [r]] @ exchange wire rs"
  by (simp add: exchange_def)

lemma exchange_append: "exchange wire (rs @ rs') = exchange wire rs @ exchange wire rs'"
  by (simp add: exchange_def)

lemma attempt_step:
  assumes "pending s = r # rest"
  shows "\<exists>s'. readexactly_1 (log (Wrote wire) s) = (Returned [r], s') \<and> pending s' = rest
           \<and> trace s' = trace s @ exchange wire [r] \<and> protocol s' = protocol s"
  using readexactly_1_pending [of "log (Wrote wire) s" r rest] assms
  by (simp add: exchange_Cons)

lemma attempts_loop_answer:
  assumes "int k \<le> m - a" "r \<noteq> NAK" "pending s = naks_then k r @ later"
  shows "\<exists>s'. attempts_loop wire m [a..m] s = (answer_outcome r, s') \<and> pending s' = later
           \<and> trace s' = trace s @ exchange wire (naks_then k r) \<and> protocol s' = protocol s"
  using assms
proof (induction k arbitrary: a s)
  case 0
  then have am: "a \<le> m" by simp
  from 0 have "pending s = r # later" by (simp add: naks_then_def)
  from attempt_step [OF this, of wire] obtain s' where
    "readexactly_1 (log (Wrote wire) s) = (Returned [r], s')" "pending s' = later"
    "trace s' = trace s @ exchange wire [r]" "protocol s' = protocol s"
    by blast
  with \<open>r \<noteq> NAK\<close> show ?case
    by (simp add: upto_rec1 [OF am] bind_def answer_outcome_def naks_then_def)
next
  case (Suc k)
  then have am: "a < m" by simp
  then have am': "a \<le> m" by simp
  from Suc.prems have "pending s = NAK # naks_then k r @ later" by (simp add: naks_then_def)
  from attempt_step [OF this, of wire] obtain s1 where s1:
    "readexactly_1 (log (Wrote wire) s) = (Returned [NAK], s1)"
    "pending s1 = naks_then k r @ later"
    "trace s1 = trace s @ exchange wire [NAK]" "protocol s1 = protocol s"
    by blast
  from Suc.prems have "int k \<le> m - (a + 1)" by simp
  from Suc.IH [OF this \<open>r \<noteq> NAK\<close> s1(2)] obtain s' where s':
    "attempts_loop wire m [a + 1..m] s1 = (answer_outcome r, s')" "pending s' = later"
    "trace s' = trace s1 @ exchange wire (naks_then k r)" "protocol s' = protocol s1"
    by blast
  have "NAK \<noteq> ACK" by (simp add: NAK_def ACK_def)
  with s1 s' am show ?case
    by (simp add: upto_rec1 [OF am'] bind_def naks_then_def exchange_Cons)
qed

lemma attempts_loop_naks:
  assumes "a \<le> m" "n = nat (m - a)" "pending s = replicate (Suc n) NAK @ later"
  shows "\<exists>s'. attempts_loop wire m [a..m] s = (Raised (TooManyFailures m), s')
           \<and> pending s' = later
           \<and> trace s' = trace s @ exchange wire (replicate (Suc n) NAK)
           \<and> protocol s' = protocol s"
  using assms
proof (induction n arbitrary: a s)
  case 0
  then have a: "a = m" by simp
  from 0 have "pending s = NAK # later" by simp
  from attempt_step [OF this, of wire] obtain s' where
    "readexactly_1 (log (Wrote wire) s) = (Returned [NAK], s')" "pending s' = later"
    "trace s' = trace s @ exchange wire [NAK]" "protocol s' = protocol s"
    by blast
  moreover have "NAK \<noteq> ACK" by (simp add: NAK_def ACK_def)
  ultimately show ?case
    using a by (simp add: upto_rec1 bind_def)
next
  case (Suc n)
  then have am: "a < m" by simp
  then have am': "a \<le> m" by simp
  from Suc.prems have "pending s = NAK # replicate (Suc n) NAK @ later" by simp
  from attempt_step [OF this, of wire] obtain s1 where s1:
    "readexactly_1 (log (Wrote wire) s) = (Returned [NAK], s1)"
    "pending s1 = replicate (Suc n) NAK @ later"
    "trace s1 = trace s @ exchange wire [NAK]" "protocol s1 = protocol s"
    by blast
  from Suc.prems have "a + 1 \<le> m" "n = nat (m - (a + 1))" by simp_all
  from Suc.IH [OF this s1(2)] obtain s' where s':
    "attempts_loop wire m [a + 1..m] s1 = (Raised (TooManyFailures m), s')" "pending s' = later"
    "trace s' = trace s1 @ exchange wire (replicate (Suc n) NAK)" "protocol s' = protocol s1"
    by blast
  have "NAK \<noteq> ACK" by (simp add: NAK_def ACK_def)
  with s1 s' am show ?case
    by (simp add: upto_rec1 [OF am'] bind_def exchange_Cons)
qed

lemma send_data_answer:
  assumes "int k \<le> m" "r \<noteq> NAK" "pending s = naks_then k r @ later"
  shows "\<exists>s'. send_xmodem128_crc_data wire m s = (answer_outcome r, s') \<and> pending s' = later
           \<and> trace s' = trace s @ exchange wire (naks_then k r) \<and> protocol s' = protocol s"
  unfolding send_xmodem128_crc_data_def
  using attempts_loop_answer [of k m 0 r s later wire] assms by simp

lemma send_data_naks:
  assumes "0 \<le> m" "pending s = replicate (Suc (nat m)) NAK @ later"
  shows "\<exists>s'. send_xmodem128_crc_data wire m s = (Raised (TooManyFailures m), s')
           \<and> pending s' = later
           \<and> trace s' = trace s @ exchange wire (replicate (Suc (nat m)) NAK)
           \<and> protocol s' = protocol s"
  unfolding send_xmodem128_crc_data_def
  using attempts_loop_naks [of 0 m "nat m" s later wire] assms by simp

subsection \<open>The handshake\<close>

lemma readuntil_after_eof:
  "eof s \<Longrightarrow> sep \<notin> set (buffer s) \<Longrightarrow> fst (readuntil sep s) \<noteq> Returned chunk"
  by (subst readuntil.simps) simp

lemma readuntil_returned:
  assumes "readuntil sep s = (Returned chunk, s')" "\<not> eof s"
  shows "\<not> eof s' \<and> protocol s' = protocol s \<and> trace s' = trace s @ [ReadUntil chunk]"
  using assms
proof (induction sep s rule: readuntil.induct)
  case (1 sep s)
  show ?case
  proof (cases "sep \<in> set (buffer s)")
    case True
    with "1.prems" show ?thesis
      by (subst (asm) readuntil.simps) (auto simp: Let_def split: if_splits)
  next
    case False
    from "1.prems"(1) False have short: "\<not> LIMIT < length (buffer s)"
      by (subst (asm) readuntil.simps) (auto split: if_splits)
    show ?thesis
    proof (cases "incoming s")
      case Nil
      with "1.prems" False short show ?thesis
        by (subst (asm) readuntil.simps) simp
    next
      case (Cons ev evs)
      show ?thesis
      proof (cases ev)
        case (Recv bs)
        let ?s = "s\<lparr>incoming := evs, buffer := buffer s @ bs\<rparr>"
        have "readuntil sep s = readuntil sep ?s"
          using False short "1.prems"(2) Cons Recv by (subst readuntil.simps) simp
        with "1.prems" "1.IH"(1) [OF False short "1.prems"(2) Cons Recv] show ?thesis
          by simp
      next
        case Eof
        let ?s = "s\<lparr>incoming := evs, eof := True\<rparr>"
        have "readuntil sep s = readuntil sep ?s"
          using False short "1.prems"(2) Cons Eof by (subst readuntil.simps) simp
        moreover have "fst (readuntil sep ?s) \<noteq> Returned chunk"
          using False by (intro readuntil_after_eof) simp_all
        ultimately show ?thesis
          using "1.prems"(1) by (metis fst_conv)
      next
        case Cancel
        with "1.prems" False short Cons show ?thesis
          by (subst (asm) readuntil.simps) simp
      qed
    qed
  qed
qed

lemma handshake_returned:
  assumes "handshake s = (Returned chunk, s1)"
  shows "\<not> eof s1 \<and> protocol s1 = StreamReaderProtocol
         \<and> trace s1 = trace s @ [ReadUntil chunk]"
  using readuntil_returned [OF assms [unfolded handshake_def]] by simp

subsection \<open>The blocks\<close>

lemma call_progress_fields [simp]:
  "trace (call_progress cb sent total_bytes s) = trace s @ progress_call cb sent total_bytes"
  "protocol (call_progress cb sent total_bytes s) = protocol s"
  "pending (call_progress cb sent total_bytes s) = pending s"
  "buffer (call_progress cb sent total_bytes s) = buffer s"
  "eof (call_progress cb sent total_bytes s) = eof s"
  "incoming (call_progress cb sent total_bytes s) = incoming s"
  by (simp_all add: call_progress_def progress_call_def)

lemma answers_Nil [simp]: "answers [] = []"
  by (simp add: answers_def)

lemma answers_Cons: "answers (k # ks) = naks_then k ACK @ answers ks"
  by (simp add: answers_def)

lemma answers_append: "answers (ks @ ks') = answers ks @ answers ks'"
  by (simp add: answers_def)

lemma ACK_accepted: "ACK \<noteq> NAK" "answer_outcome ACK = Returned ()"
  by (simp_all add: ACK_def NAK_def answer_outcome_def)

lemma blocks_loop_step:
  "i < n \<Longrightarrow>
   blocks_loop data m cb [i..<n] s =
     bind (send_xmodem128_crc_data (block_wire data i) m s)
       (\<lambda>_ s'. blocks_loop data m cb [Suc i..<n]
          (call_progress cb ((int i + 1) * 128) (int (length data)) s'))"
  by (simp add: upt_conv_Cons serialize_make_packet BLOCK_SIZE_def)

lemma blocks_loop_accepted:
  assumes "\<forall>k\<in>set ks. int k \<le> m" "pending s = answers ks @ later" "n = i + length ks"
  shows "\<exists>s'. blocks_loop data m cb [i..<n] s = (Returned (), s') \<and> pending s' = later
           \<and> trace s' = trace s @ blocks_trace data cb i ks \<and> protocol s' = protocol s"
  using assms
proof (induction ks arbitrary: i s)
  case Nil
  then show ?case by simp
next
  case (Cons k ks)
  then have lt: "i < n" and k: "int k \<le> m" by simp_all
  from Cons.prems have "pending s = naks_then k ACK @ answers ks @ later"
    by (simp add: answers_Cons)
  from send_data_answer [OF k ACK_accepted(1) this, of "block_wire data i"] obtain s1 where s1:
    "send_xmodem128_crc_data (block_wire data i) m s = (Returned (), s1)"
    "pending s1 = answers ks @ later"
    "trace s1 = trace s @ exchange (block_wire data i) (naks_then k ACK)"
    "protocol s1 = protocol s"
    by (auto simp: ACK_accepted)
  let ?s2 = "call_progress cb ((int i + 1) * 128) (int (length data)) s1"
  from Cons.prems have "\<forall>k\<in>set ks. int k \<le> m" "n = Suc i + length ks" by simp_all
  from Cons.IH [OF this(1) _ this(2), of ?s2] s1 obtain s' where
    "blocks_loop data m cb [Suc i..<n] ?s2 = (Returned (), s')" "pending s' = later"
    "trace s' = trace ?s2 @ blocks_trace data cb (Suc i) ks" "protocol s' = protocol ?s2"
    by auto
  with s1 show ?case
    by (simp add: blocks_loop_step [OF lt] bind_def)
qed

lemma blocks_loop_aborted:
  assumes "\<forall>k\<in>set ks. int k \<le> m"
    and "pending s = answers ks @ bad @ later"
    and "i + length ks < n"
    and fails: "\<And>s :: 'p world. pending s = bad @ later \<Longrightarrow>
      \<exists>s'. send_xmodem128_crc_data (block_wire data (i + length ks)) m s = (Raised e, s')
         \<and> pending s' = later
         \<and> trace s' = trace s @ exchange (block_wire data (i + length ks)) bad
         \<and> protocol s' = protocol s"
  shows "\<exists>s'. blocks_loop data m cb [i..<n] (s :: 'p world) = (Raised e, s') \<and> pending s' = later
           \<and> trace s' = trace s @ blocks_trace data cb i ks
                @ exchange (block_wire data (i + length ks)) bad
           \<and> protocol s' = protocol s"
  using assms
proof (induction ks arbitrary: i s)
  case Nil
  then have lt: "i < n" by simp
  from Nil.prems(4) [of s] Nil.prems(2) obtain s' where
    "send_xmodem128_crc_data (block_wire data i) m s = (Raised e, s')" "pending s' = later"
    "trace s' = trace s @ exchange (block_wire data i) bad" "protocol s' = protocol s"
    by auto
  then show ?case
    by (simp add: blocks_loop_step [OF lt] bind_def)
next
  case (Cons k ks)
  then have lt: "i < n" and k: "int k \<le> m" by simp_all
  from Cons.prems have "pending s = naks_then k ACK @ answers ks @ bad @ later"
    by (simp add: answers_Cons)
  from send_data_answer [OF k ACK_accepted(1) this, of "block_wire data i"] obtain s1 where s1:
    "send_xmodem128_crc_data (block_wire data i) m s = (Returned (), s1)"
    "pending s1 = answers ks @ bad @ later"
    "trace s1 = trace s @ exchange (block_wire data i) (naks_then k ACK)"
    "protocol s1 = protocol s"
    by (auto simp: ACK_accepted)
  let ?s2 = "call_progress cb ((int i + 1) * 128) (int (length data)) s1"
  have ih: "\<exists>s'. blocks_loop data m cb [Suc i..<n] ?s2 = (Raised e, s') \<and> pending s' = later
      \<and> trace s' = trace ?s2 @ blocks_trace data cb (Suc i) ks
           @ exchange (block_wire data (Suc i + length ks)) bad
      \<and> protocol s' = protocol ?s2"
  proof (rule Cons.IH)
    show "\<forall>k\<in>set ks. int k \<le> m" using Cons.prems(1) by simp
    show "pending ?s2 = answers ks @ bad @ later" using s1 by simp
    show "Suc i + length ks < n" using Cons.prems(3) by simp
    show "\<exists>s'. send_xmodem128_crc_data (block_wire data (Suc i + length ks)) m s0 = (Raised e, s')
         \<and> pending s' = later
         \<and> trace s' = trace s0 @ exchange (block_wire data (Suc i + length ks)) bad
         \<and> protocol s' = protocol s0"
      if "pending s0 = bad @ later" for s0 :: "'p world"
      using Cons.prems(4) [OF that] by simp
  qed
  then obtain s' where
    "blocks_loop data m cb [Suc i..<n] ?s2 = (Raised e, s')" "pending s' = later"
    "trace s' = trace ?s2 @ blocks_trace data cb (Suc i) ks
       @ exchange (block_wire data (Suc i + length ks)) bad"
    "protocol s' = protocol ?s2"
    by blast
  with s1 show ?case
    by (simp add: blocks_loop_step [OF lt] bind_def)
qed

subsection \<open>The whole transfer\<close>

lemma transfer_after_handshake:
  assumes "readuntil 0x43 s0 = (Returned chunk, s1)"
  shows "transfer data m cb s0 =
     bind (blocks_loop data m cb [0..<length data div 128]
             (log (Cleared (buffer s1))
                ((call_progress cb 0 (int (length data)) s1)\<lparr>buffer := []\<rparr>)))
       (\<lambda>_ s4. send_xmodem128_crc_data [EOT] m s4)"
  using assms by (simp add: transfer_def bind_def Let_def BLOCK_SIZE_def)

lemma cleared_fields:
  fixes s1 :: "'p world" and cb :: bool and data :: bytes
  defines "s3 \<equiv> log (Cleared (buffer s1))
     ((call_progress cb 0 (int (length data)) s1)\<lparr>buffer := []\<rparr>)"
  shows "trace s3 = trace s1 @ progress_call cb 0 (int (length data)) @ [Cleared (buffer s1)]"
    and "protocol s3 = protocol s1"
    and "\<not> eof s1 \<Longrightarrow> pending s3 = stream_of (incoming s1)"
    and "buffer s3 = []"
  by (simp_all add: s3_def pending_def call_progress_def progress_call_def log_def)

lemma try_finally_exit:
  "body s = (r, s') \<Longrightarrow> r \<noteq> Suspended \<Longrightarrow> try_finally body cleanup s = (r, cleanup s')"
  by (cases r) (simp_all add: try_finally_def)

lemma send_unfold:
  assumes "length data mod 128 = 0"
  shows "send_xmodem128_crc data m cb s =
     try_finally (transfer data m cb) (\<lambda>s'. s'\<lparr>protocol := protocol s\<rparr>)
       (s\<lparr>buffer := [], eof := False, protocol := StreamReaderProtocol\<rparr>)"
  using assms by (simp add: send_xmodem128_crc_def BLOCK_SIZE_def Let_def)

lemma pending_protocol_update [simp]: "pending (s\<lparr>protocol := p\<rparr>) = pending s"
  by (simp add: pending_def)

lemma send_accepted:
  fixes s :: "'p world"
  assumes len: "length data mod 128 = 0"
    and hs: "handshake s = (Returned chunk, s1)"
    and st: "stream_of (incoming s1) = answers (ks @ [k]) @ later"
    and n: "length ks = length data div 128"
    and ks: "\<forall>k\<in>set ks. int k \<le> m" "int k \<le> m"
  shows "\<exists>s'. send_xmodem128_crc data m cb s = (Returned (), s')
           \<and> protocol s' = protocol s
           \<and> trace s' = trace s @ handshake_trace data cb chunk (buffer s1)
                @ blocks_trace data cb 0 ks @ exchange [EOT] (naks_then k ACK)
           \<and> pending s' = later"
proof -
  let ?s0 = "s\<lparr>buffer := [], eof := False, protocol := StreamReaderProtocol\<rparr>"
  let ?s3 = "log (Cleared (buffer s1))
     ((call_progress cb 0 (int (length data)) s1)\<lparr>buffer := []\<rparr>)"
  from hs have ru: "readuntil 0x43 ?s0 = (Returned chunk, s1)" by (simp add: handshake_def)
  from handshake_returned [OF hs] have live: "\<not> eof s1"
    and p1: "protocol s1 = StreamReaderProtocol" and t1: "trace s1 = trace s @ [ReadUntil chunk]"
    by simp_all
  have "pending ?s3 = answers ks @ naks_then k ACK @ later"
    using cleared_fields(3) [OF live] st by (simp add: answers_append answers_Cons)
  from blocks_loop_accepted [OF ks(1) this, of "length data div 128" 0 data cb] n
  obtain s4 where s4:
    "blocks_loop data m cb [0..<length data div 128] ?s3 = (Returned (), s4)"
    "pending s4 = naks_then k ACK @ later"
    "trace s4 = trace ?s3 @ blocks_trace data cb 0 ks" "protocol s4 = protocol ?s3"
    by auto
  from send_data_answer [OF ks(2) ACK_accepted(1) s4(2), of "[EOT]"] obtain s5 where s5:
    "send_xmodem128_crc_data [EOT] m s4 = (Returned (), s5)" "pending s5 = later"
    "trace s5 = trace s4 @ exchange [EOT] (naks_then k ACK)" "protocol s5 = protocol s4"
    by (auto simp: ACK_accepted)
  have "transfer data m cb ?s0 = (Returned (), s5)"
    using s4(1) s5(1) by (simp add: transfer_after_handshake [OF ru] bind_def)
  then have "send_xmodem128_crc data m cb s = (Returned (), s5\<lparr>protocol := protocol s\<rparr>)"
    by (simp add: send_unfold [OF len] try_finally_exit)
  moreover have "trace s5 = trace s @ handshake_trace data cb chunk (buffer s1)
      @ blocks_trace data cb 0 ks @ exchange [EOT] (naks_then k ACK)"
    using s5(3) s4(3) t1 by (simp add: cleared_fields(1) handshake_trace_def)
  ultimately show ?thesis
    using s5(2) by simp
qed

lemma send_aborted:
  fixes s :: "'p world"
  assumes len: "length data mod 128 = 0"
    and hs: "handshake s = (Returned chunk, s1)"
    and st: "stream_of (incoming s1) = answers ks @ bad @ later"
    and n: "length ks \<le> length data div 128"
    and ks: "\<forall>k\<in>set ks. int k \<le> m"
    and fails: "\<And>s :: 'p world. pending s = bad @ later \<Longrightarrow>
      \<exists>s'. send_xmodem128_crc_data (item_wire data (length ks)) m s = (Raised e, s')
         \<and> pending s' = later
         \<and> trace s' = trace s @ exchange (item_wire data (length ks)) bad
         \<and> protocol s' = protocol s"
  shows "\<exists>s'. send_xmodem128_crc data m cb s = (Raised e, s')
           \<and> protocol s' = protocol s
           \<and> trace s' = trace s @ handshake_trace data cb chunk (buffer s1)
                @ blocks_trace data cb 0 ks @ exchange (item_wire data (length ks)) bad
           \<and> pending s' = later"
proof -
  let ?s0 = "s\<lparr>buffer := [], eof := False, protocol := StreamReaderProtocol\<rparr>"
  let ?s3 = "log (Cleared (buffer s1))
     ((call_progress cb 0 (int (length data)) s1)\<lparr>buffer := []\<rparr>)"
  let ?wire = "item_wire data (length ks)"
  from hs have ru: "readuntil 0x43 ?s0 = (Returned chunk, s1)" by (simp add: handshake_def)
  from handshake_returned [OF hs] have live: "\<not> eof s1"
    and t1: "trace s1 = trace s @ [ReadUntil chunk]"
    by simp_all
  have p3: "pending ?s3 = answers ks @ bad @ later"
    using cleared_fields(3) [OF live] st by simp
  have "\<exists>s5. transfer data m cb ?s0 = (Raised e, s5) \<and> pending s5 = later
      \<and> trace s5 = trace ?s3 @ blocks_trace data cb 0 ks @ exchange ?wire bad"
  proof (cases "length ks < length data div 128")
    case True
    then have wire: "?wire = block_wire data (0 + length ks)" by (simp add: item_wire_def)
    have "\<exists>s'. blocks_loop data m cb [0..<length data div 128] ?s3 = (Raised e, s')
        \<and> pending s' = later
        \<and> trace s' = trace ?s3 @ blocks_trace data cb 0 ks
             @ exchange (block_wire data (0 + length ks)) bad
        \<and> protocol s' = protocol ?s3"
    proof (rule blocks_loop_aborted [OF ks p3])
      show "0 + length ks < length data div 128" using True by simp
      show "\<exists>s'. send_xmodem128_crc_data (block_wire data (0 + length ks)) m s0 = (Raised e, s')
          \<and> pending s' = later
          \<and> trace s' = trace s0 @ exchange (block_wire data (0 + length ks)) bad
          \<and> protocol s' = protocol s0"
        if "pending s0 = bad @ later" for s0 :: "'p world"
        using fails [OF that] by (simp only: wire)
    qed
    then obtain s5 where
      "blocks_loop data m cb [0..<length data div 128] ?s3 = (Raised e, s5)"
      "pending s5 = later"
      "trace s5 = trace ?s3 @ blocks_trace data cb 0 ks
         @ exchange (block_wire data (0 + length ks)) bad"
      by blast
    then show ?thesis
      by (simp add: transfer_after_handshake [OF ru] bind_def wire)
  next
    case False
    with n have all: "length data div 128 = 0 + length ks" by simp
    from False have wire: "?wire = [EOT]" by (simp add: item_wire_def)
    from blocks_loop_accepted [OF ks p3 all, of data cb] obtain s4 where s4:
      "blocks_loop data m cb [0..<length data div 128] ?s3 = (Returned (), s4)"
      "pending s4 = bad @ later"
      "trace s4 = trace ?s3 @ blocks_trace data cb 0 ks"
      by blast
    from fails [OF s4(2)] obtain s5 where
      "send_xmodem128_crc_data [EOT] m s4 = (Raised e, s5)" "pending s5 = later"
      "trace s5 = trace s4 @ exchange [EOT] bad"
      by (auto simp: wire)
    with s4 show ?thesis
      by (simp add: transfer_after_handshake [OF ru] bind_def wire)
  qed
  then obtain s5 where s5: "transfer data m cb ?s0 = (Raised e, s5)" "pending s5 = later"
    "trace s5 = trace ?s3 @ blocks_trace data cb 0 ks @ exchange ?wire bad"
    by blast
  from s5(1) have "send_xmodem128_crc data m cb s = (Raised e, s5\<lparr>protocol := protocol s\<rparr>)"
    by (simp add: send_unfold [OF len] try_finally_exit)
  moreover have "trace s5 = trace s @ handshake_trace data cb chunk (buffer s1)
      @ blocks_trace data cb 0 ks @ exchange ?wire bad"
    using s5(3) t1 by (simp add: cleared_fields(1) handshake_trace_def)
  ultimately show ?thesis
    using s5(2) by simp
qed

subsection \<open>The wire format and the order of the packets\<close>

lemma block_wire_format:
  assumes "i < length data div 128"
  shows "length (block_wire data i) = 133"
    and "block_wire data i ! 0 = 0x01"
    and "unat (block_wire data i ! 1) = (i + 1) mod 256"
    and "unat (block_wire data i ! 2) = 255 - (i + 1) mod 256"
    and "take 128 (drop 3 (block_wire data i)) = take 128 (drop (128 * i) data)"
    and "crc16_ccitt (take 128 (drop (128 * i) data))
           = 256 * uint (block_wire data i ! 131) + uint (block_wire data i ! 132)"
proof -
  let ?p = "block_payload data i"
  let ?c = "crc16_ccitt ?p"
  have len: "length ?p = 128" by (rule block_payload_length [OF assms])
  have p: "?p = take 128 (drop (128 * i) data)" by (simp add: block_payload_def)
  have c: "0 \<le> ?c" "?c < 65536" using crc16_ccitt_range [of ?p] by simp_all
  then have hi: "?c div 256 < 256" and hi0: "0 \<le> ?c div 256" by simp_all
  have lo: "uint (word_of_int (?c mod 256) :: byte) = ?c mod 256"
    by (simp add: uint_word_of_int take_bit_eq_mod)
  have hi': "uint (word_of_int (?c div 256) :: byte) = ?c div 256"
    using hi hi0 by (simp add: uint_word_of_int take_bit_eq_mod)
  show "length (block_wire data i) = 133"
    by (simp add: block_wire_def len)
  show "block_wire data i ! 0 = 0x01"
    by (simp add: block_wire_def)
  show "unat (block_wire data i ! 1) = (i + 1) mod 256"
    by (simp add: block_wire_def unat_of_nat take_bit_eq_mod)
  have "block_wire data i ! 2 = of_nat (255 - (i + 1) mod 256)"
    unfolding block_wire_def by (simp only: append.simps nth_Cons_Suc nth_Cons_0 numeral_2_eq_2)
  moreover have "unat (of_nat (255 - (i + 1) mod 256) :: byte) = 255 - (i + 1) mod 256"
    by (rule of_nat_inverse [OF refl]) simp
  ultimately show "unat (block_wire data i ! 2) = 255 - (i + 1) mod 256"
    by (simp only:)
  show "take 128 (drop 3 (block_wire data i)) = take 128 (drop (128 * i) data)"
    using len by (simp add: block_wire_def flip: p)
  have "block_wire data i ! 131 = word_of_int (?c div 256)"
    and "block_wire data i ! 132 = word_of_int (?c mod 256)"
    using len by (simp_all add: block_wire_def nth_append nth_Cons')
  then show "crc16_ccitt (take 128 (drop (128 * i) data))
      = 256 * uint (block_wire data i ! 131) + uint (block_wire data i ! 132)"
    by (simp add: hi' lo flip: p)
qed

lemma writes_of_append [simp]: "writes_of (as @ bs) = writes_of as @ writes_of bs"
  by (induction as rule: writes_of.induct) simp_all

lemma writes_of_exchange [simp]: "writes_of (exchange wire rs) = replicate (length rs) wire"
  by (induction rs) (simp_all add: exchange_Cons)

lemma writes_of_progress_call [simp]: "writes_of (progress_call cb sent total_bytes) = []"
  by (simp add: progress_call_def)

lemma writes_of_handshake_trace [simp]: "writes_of (handshake_trace data cb chunk dropped) = []"
  by (simp add: handshake_trace_def)

lemma length_naks_then [simp]: "length (naks_then k r) = Suc k"
  by (simp add: naks_then_def)

lemma writes_of_blocks_trace:
  "writes_of (blocks_trace data cb i ks)
     = concat (map (\<lambda>(j, k). replicate (Suc k) (block_wire data j)) (zip [i..<i + length ks] ks))"
proof (induction ks arbitrary: i)
  case Nil
  show ?case by simp
next
  case (Cons k ks)
  have "[i..<i + Suc (length ks)] = i # [Suc i..<i + Suc (length ks)]"
    by (rule upt_conv_Cons) simp
  then show ?case
    by (simp add: Cons.IH)
qed

lemma transmissions_blocks:
  assumes "length ks \<le> length data div 128"
  shows "concat (map (\<lambda>(j, k). replicate (Suc k) (block_wire data j)) (zip [0..<0 + length ks] ks))
     = transmissions data ks"
proof -
  have "(case jk of (j, k) \<Rightarrow> replicate (Suc k) (block_wire data j))
      = (case jk of (j, k) \<Rightarrow> replicate (Suc k) (item_wire data j))"
    if "jk \<in> set (zip [0..<length ks] ks)" for jk
  proof -
    obtain j k where jk: "jk = (j, k)" by (cases jk)
    with that have "j \<in> set [0..<length ks]" by (auto dest: set_zip_leftD)
    with assms have "j < length data div 128" by simp
    with jk show ?thesis by (simp add: item_wire_def)
  qed
  then show ?thesis
    unfolding transmissions_def by (simp cong: map_cong)
qed

lemma transmissions_snoc:
  assumes "length ks = length data div 128"
  shows "transmissions data (ks @ [k]) = transmissions data ks @ replicate (Suc k) [EOT]"
proof -
  have "zip [0..<length (ks @ [k])] (ks @ [k]) = zip [0..<length ks] ks @ [(length ks, k)]"
    by simp
  then show ?thesis
    using assms by (simp add: transmissions_def item_wire_def)
qed

text \<open>
  C1. For every \<open>data\<close> whose length is a multiple of 128, once the handshake has
  returned and the receiver accepts every item (item \<open>j\<close> after \<open>ks ! j\<close> refusals,
  none more than \<open>max_failures\<close>), \<open>send_xmodem128_crc\<close> returns, and what it wrote is
  the \<open>len(data) div 128\<close> data packets in block order (the packet of block \<open>j\<close>
  written \<open>ks ! j + 1\<close> times) and then the end-of-transmission byte. The packet of
  the block with 0-based index \<open>i\<close> is what \<open>serialize\<close> returns for the sequence
  number \<open>(i + 1) & 0xFF\<close> and the slice \<open>data[128 * i : 128 * (i + 1)]\<close>; it has
  exactly 133 bytes: \<open>0x01\<close>, the sequence number \<open>(i + 1) mod 256\<close>, 255 minus the
  sequence number, the 128 bytes of the slice, and two bytes that are the CRC of
  the slice (\<open>crc16_ccitt\<close>) with the high byte first.
\<close>

theorem send_packets_in_block_order:
  fixes s :: "'p world"
  assumes "length data mod 128 = 0"
    and "handshake s = (Returned chunk, s1)"
    and "stream_of (incoming s1) = answers (ks @ [k]) @ later"
    and "length ks = length data div 128"
    and "\<forall>k'\<in>set (ks @ [k]). int k' \<le> max_failures"
  shows "(\<exists>s'. send_xmodem128_crc data max_failures progress_callback s = (Returned (), s')
           \<and> trace s' = trace s @ handshake_trace data progress_callback chunk (buffer s1)
                @ blocks_trace data progress_callback 0 ks @ exchange [EOT] (naks_then k ACK)
           \<and> writes_of (trace s')
                = writes_of (trace s)
                  @ concat (map (\<lambda>(j, k). replicate (Suc k) (block_wire data j))
                              (zip [0..<length data div 128] ks))
                  @ replicate (Suc k) [EOT])
       \<and> (\<forall>i < length data div 128.
           serialize (make_packet data i) = Inr (block_wire data i)
           \<and> number (make_packet data i) = int ((i + 1) mod 256)
           \<and> payload (make_packet data i) = take 128 (drop (128 * i) data)
           \<and> length (block_wire data i) = 133
           \<and> block_wire data i ! 0 = 0x01
           \<and> unat (block_wire data i ! 1) = (i + 1) mod 256
           \<and> unat (block_wire data i ! 2) = 255 - (i + 1) mod 256
           \<and> take 128 (drop 3 (block_wire data i)) = take 128 (drop (128 * i) data)
           \<and> crc16_ccitt (take 128 (drop (128 * i) data))
                = 256 * uint (block_wire data i ! 131) + uint (block_wire data i ! 132))"
proof (rule conjI)
  from assms(5) have ks: "\<forall>k'\<in>set ks. int k' \<le> max_failures" and k: "int k \<le> max_failures"
    by simp_all
  from send_accepted [OF assms(1-4) ks k, of progress_callback] obtain s' where s':
    "send_xmodem128_crc data max_failures progress_callback s = (Returned (), s')"
    "trace s' = trace s @ handshake_trace data progress_callback chunk (buffer s1)
       @ blocks_trace data progress_callback 0 ks @ exchange [EOT] (naks_then k ACK)"
    by blast
  have "writes_of (trace s')
      = writes_of (trace s)
        @ concat (map (\<lambda>(j, k). replicate (Suc k) (block_wire data j))
                    (zip [0..<length data div 128] ks))
        @ replicate (Suc k) [EOT]"
    using assms(4) by (simp add: s'(2) writes_of_blocks_trace)
  with s' show "\<exists>s'. send_xmodem128_crc data max_failures progress_callback s = (Returned (), s')
      \<and> trace s' = trace s @ handshake_trace data progress_callback chunk (buffer s1)
           @ blocks_trace data progress_callback 0 ks @ exchange [EOT] (naks_then k ACK)
      \<and> writes_of (trace s')
           = writes_of (trace s)
             @ concat (map (\<lambda>(j, k). replicate (Suc k) (block_wire data j))
                         (zip [0..<length data div 128] ks))
             @ replicate (Suc k) [EOT]"
    by blast
  show "\<forall>i < length data div 128.
      serialize (make_packet data i) = Inr (block_wire data i)
      \<and> number (make_packet data i) = int ((i + 1) mod 256)
      \<and> payload (make_packet data i) = take 128 (drop (128 * i) data)
      \<and> length (block_wire data i) = 133
      \<and> block_wire data i ! 0 = 0x01
      \<and> unat (block_wire data i ! 1) = (i + 1) mod 256
      \<and> unat (block_wire data i ! 2) = 255 - (i + 1) mod 256
      \<and> take 128 (drop 3 (block_wire data i)) = take 128 (drop (128 * i) data)
      \<and> crc16_ccitt (take 128 (drop (128 * i) data))
           = 256 * uint (block_wire data i ! 131) + uint (block_wire data i ! 132)"
  proof (intro allI impI)
    fix i assume i: "i < length data div 128"
    have "number (make_packet data i) = int ((i + 1) mod 256)"
      by (simp add: make_packet_def sequence_number)
    moreover have "payload (make_packet data i) = take 128 (drop (128 * i) data)"
      by (simp add: make_packet_def slice_def BLOCK_SIZE_def)
    ultimately show "serialize (make_packet data i) = Inr (block_wire data i)
      \<and> number (make_packet data i) = int ((i + 1) mod 256)
      \<and> payload (make_packet data i) = take 128 (drop (128 * i) data)
      \<and> length (block_wire data i) = 133
      \<and> block_wire data i ! 0 = 0x01
      \<and> unat (block_wire data i ! 1) = (i + 1) mod 256
      \<and> unat (block_wire data i ! 2) = 255 - (i + 1) mod 256
      \<and> take 128 (drop 3 (block_wire data i)) = take 128 (drop (128 * i) data)
      \<and> crc16_ccitt (take 128 (drop (128 * i) data))
           = 256 * uint (block_wire data i ! 131) + uint (block_wire data i ! 132)"
      using block_wire_format [OF i] serialize_make_packet [of data i] by simp
  qed
qed

lemma handshake_start:
  assumes "0x43 \<notin> set pre" "length pre \<le> LIMIT"
  shows "handshake (start p (Recv (pre @ [0x43] @ junk) # evs))
     = (Returned (pre @ [0x43]),
        \<lparr>protocol = StreamReaderProtocol, incoming = evs, buffer = junk, eof = False,
         trace = [ReadUntil (pre @ [0x43])]\<rparr>)"
proof -
  have "takeWhile (\<lambda>b. b \<noteq> 0x43) (pre @ 0x43 # junk) = pre"
    using assms(1) by (subst takeWhile_append2) auto
  then show ?thesis
    using assms(2)
    by (simp add: handshake_def start_def readuntil.simps [of _ "_\<lparr>buffer := _\<rparr>"]
        readuntil.simps [of _ "\<lparr>protocol = _, incoming = _, buffer = _, eof = _, trace = _\<rparr>"]
        log_def Let_def)
qed

theorem send_packets_in_block_order_witness:
  "length (replicate 128 (0 :: byte)) mod 128 = 0
   \<and> (\<exists>s'. send_xmodem128_crc (replicate 128 0) 3 True
             (start () [Recv [0x43], Recv [NAK, ACK], Recv [ACK]]) = (Returned (), s')
          \<and> writes_of (trace s')
               = [block_wire (replicate 128 0) 0, block_wire (replicate 128 0) 0, [EOT]])
   \<and> serialize (make_packet (replicate 128 0) 0) = Inr (block_wire (replicate 128 0) 0)
   \<and> length (block_wire (replicate 128 0) 0) = 133
   \<and> unat (block_wire (replicate 128 0) 0 ! 1) = 1
   \<and> unat (block_wire (replicate 128 0) 0 ! 2) = 254"
proof -
  let ?data = "replicate 128 (0 :: byte)"
  let ?s = "start () [Recv [0x43], Recv [NAK, ACK], Recv [ACK]]"
  let ?s1 = "\<lparr>protocol = StreamReaderProtocol, incoming = [Recv [NAK, ACK], Recv [ACK]],
     buffer = [], eof = False, trace = [ReadUntil [0x43]]\<rparr> :: unit world"
  have len: "length ?data mod 128 = 0" by simp
  have hs: "handshake ?s = (Returned [0x43], ?s1)"
    using handshake_start [where pre = "[]" and junk = "[]" and p = "()"
        and evs = "[Recv [NAK, ACK], Recv [ACK]]"]
    by (simp add: LIMIT_def)
  have st: "stream_of (incoming ?s1) = answers ([1] @ [0]) @ []"
    by (simp add: answers_def naks_then_def)
  have n: "length [1 :: nat] = length ?data div 128" by simp
  have ks: "\<forall>k'\<in>set ([1] @ [0 :: nat]). int k' \<le> 3" by simp
  note inst = send_packets_in_block_order [OF len hs st n ks, of True]
  from inst have "\<exists>s'. send_xmodem128_crc ?data 3 True ?s = (Returned (), s')
      \<and> writes_of (trace s') = [block_wire ?data 0, block_wire ?data 0, [EOT]]"
    by (auto simp: start_def numeral_2_eq_2)
  moreover from inst have "serialize (make_packet ?data 0) = Inr (block_wire ?data 0)
      \<and> length (block_wire ?data 0) = 133
      \<and> unat (block_wire ?data 0 ! 1) = 1 \<and> unat (block_wire ?data 0 ! 2) = 254"
    by simp
  ultimately show ?thesis
    using len by blast
qed

subsection \<open>Retries\<close>

lemma writes_of_accepted_blocks:
  "length ks \<le> length data div 128 \<Longrightarrow>
   writes_of (blocks_trace data cb 0 ks) = transmissions data ks"
  using transmissions_blocks [of ks data] by (simp add: writes_of_blocks_trace)

text \<open>
  C2. With \<open>0 \<le> max_failures\<close>, for each data block and for the end-of-transmission
  byte, each with an attempt counter of its own (every call of
  \<open>send_xmodem128_crc_data\<close> starts at attempt 0, so the refusals \<open>ks\<close> of the items
  before do not count): when the receiver answers an item with \<open>max_failures + 1\<close>
  consecutive \<open>NAK\<close>s, the whole transfer ends with the \<open>ValueError\<close> for too many
  failures, the item having been written \<open>max_failures + 1\<close> times; when it answers
  every item with at most \<open>max_failures\<close> \<open>NAK\<close>s and then \<open>ACK\<close>, the transfer
  returns; and every retransmission writes the same bytes as the first transmission.
\<close>

theorem retry_bound:
  fixes s :: "'p world"
  assumes "length data mod 128 = 0"
    and "0 \<le> max_failures"
    and "handshake s = (Returned chunk, s1)"
    and "\<forall>k\<in>set ks. int k \<le> max_failures"
  shows
    "(\<forall>(s0 :: 'p world) wire later.
        pending s0 = replicate (Suc (nat max_failures)) NAK @ later \<longrightarrow>
        (\<exists>s'. send_xmodem128_crc_data wire max_failures s0
                 = (Raised (TooManyFailures max_failures), s')
           \<and> trace s' = trace s0 @ exchange wire (replicate (Suc (nat max_failures)) NAK)))
     \<and> (\<forall>(s0 :: 'p world) wire k later.
        int k \<le> max_failures \<and> pending s0 = naks_then k ACK @ later \<longrightarrow>
        (\<exists>s'. send_xmodem128_crc_data wire max_failures s0 = (Returned (), s')
           \<and> trace s' = trace s0 @ exchange wire (naks_then k ACK)
           \<and> writes_of (exchange wire (naks_then k ACK)) = replicate (Suc k) wire))
     \<and> (length ks \<le> length data div 128
          \<and> stream_of (incoming s1)
              = answers ks @ replicate (Suc (nat max_failures)) NAK @ later
        \<longrightarrow> (\<exists>s'. send_xmodem128_crc data max_failures progress_callback s
                      = (Raised (TooManyFailures max_failures), s')
                \<and> protocol s' = protocol s
                \<and> trace s' = trace s @ handshake_trace data progress_callback chunk (buffer s1)
                     @ blocks_trace data progress_callback 0 ks
                     @ exchange (item_wire data (length ks))
                         (replicate (Suc (nat max_failures)) NAK)
                \<and> writes_of (trace s')
                     = writes_of (trace s) @ transmissions data ks
                       @ replicate (Suc (nat max_failures)) (item_wire data (length ks))))
     \<and> (length ks = length data div 128 + 1
          \<and> stream_of (incoming s1) = answers ks @ later
        \<longrightarrow> (\<exists>s'. send_xmodem128_crc data max_failures progress_callback s = (Returned (), s')
                \<and> protocol s' = protocol s
                \<and> writes_of (trace s') = writes_of (trace s) @ transmissions data ks))"
proof (intro conjI allI impI)
  fix s0 :: "'p world" and wire later
  assume "pending s0 = replicate (Suc (nat max_failures)) NAK @ later"
  from send_data_naks [OF assms(2) this, of wire]
  show "\<exists>s'. send_xmodem128_crc_data wire max_failures s0
            = (Raised (TooManyFailures max_failures), s')
      \<and> trace s' = trace s0 @ exchange wire (replicate (Suc (nat max_failures)) NAK)"
    by blast
next
  fix s0 :: "'p world" and wire k later
  assume "int k \<le> max_failures \<and> pending s0 = naks_then k ACK @ later"
  then have "int k \<le> max_failures" "pending s0 = naks_then k ACK @ later" by simp_all
  from send_data_answer [OF this(1) ACK_accepted(1) this(2), of wire]
  show "\<exists>s'. send_xmodem128_crc_data wire max_failures s0 = (Returned (), s')
      \<and> trace s' = trace s0 @ exchange wire (naks_then k ACK)
      \<and> writes_of (exchange wire (naks_then k ACK)) = replicate (Suc k) wire"
    by (auto simp: ACK_accepted)
next
  assume a: "length ks \<le> length data div 128
    \<and> stream_of (incoming s1) = answers ks @ replicate (Suc (nat max_failures)) NAK @ later"
  let ?bad = "replicate (Suc (nat max_failures)) NAK"
  have "\<exists>s'. send_xmodem128_crc data max_failures progress_callback s
        = (Raised (TooManyFailures max_failures), s')
      \<and> protocol s' = protocol s
      \<and> trace s' = trace s @ handshake_trace data progress_callback chunk (buffer s1)
           @ blocks_trace data progress_callback 0 ks @ exchange (item_wire data (length ks)) ?bad
      \<and> pending s' = later"
  proof (rule send_aborted [OF assms(1) assms(3) _ _ assms(4)])
    show "stream_of (incoming s1) = answers ks @ ?bad @ later" using a by simp
    show "length ks \<le> length data div 128" using a by simp
    show "\<exists>s'. send_xmodem128_crc_data (item_wire data (length ks)) max_failures s0
          = (Raised (TooManyFailures max_failures), s')
        \<and> pending s' = later
        \<and> trace s' = trace s0 @ exchange (item_wire data (length ks)) ?bad
        \<and> protocol s' = protocol s0"
      if "pending s0 = ?bad @ later" for s0 :: "'p world"
      using send_data_naks [OF assms(2) that] by blast
  qed
  then obtain s' where s':
    "send_xmodem128_crc data max_failures progress_callback s
       = (Raised (TooManyFailures max_failures), s')"
    "protocol s' = protocol s"
    "trace s' = trace s @ handshake_trace data progress_callback chunk (buffer s1)
       @ blocks_trace data progress_callback 0 ks @ exchange (item_wire data (length ks)) ?bad"
    by blast
  have "writes_of (trace s') = writes_of (trace s) @ transmissions data ks
      @ replicate (Suc (nat max_failures)) (item_wire data (length ks))"
    using a by (simp add: s'(3) writes_of_accepted_blocks)
  with s' show "\<exists>s'. send_xmodem128_crc data max_failures progress_callback s
        = (Raised (TooManyFailures max_failures), s')
      \<and> protocol s' = protocol s
      \<and> trace s' = trace s @ handshake_trace data progress_callback chunk (buffer s1)
           @ blocks_trace data progress_callback 0 ks @ exchange (item_wire data (length ks)) ?bad
      \<and> writes_of (trace s') = writes_of (trace s) @ transmissions data ks
           @ replicate (Suc (nat max_failures)) (item_wire data (length ks))"
    by blast
next
  assume a: "length ks = length data div 128 + 1 \<and> stream_of (incoming s1) = answers ks @ later"
  then have "ks \<noteq> []" by auto
  then obtain ks' k where split: "ks = ks' @ [k]"
    by (metis append_butlast_last_id)
  with a have n: "length ks' = length data div 128"
    and st: "stream_of (incoming s1) = answers (ks' @ [k]) @ later"
    by simp_all
  from assms(4) split have ks': "\<forall>k\<in>set ks'. int k \<le> max_failures" and k: "int k \<le> max_failures"
    by simp_all
  from send_accepted [OF assms(1) assms(3) st n ks' k, of progress_callback] obtain s' where s':
    "send_xmodem128_crc data max_failures progress_callback s = (Returned (), s')"
    "protocol s' = protocol s"
    "trace s' = trace s @ handshake_trace data progress_callback chunk (buffer s1)
       @ blocks_trace data progress_callback 0 ks' @ exchange [EOT] (naks_then k ACK)"
    by blast
  have "writes_of (trace s') = writes_of (trace s) @ transmissions data ks"
    using n by (simp add: s'(3) split writes_of_accepted_blocks transmissions_snoc)
  with s' show "\<exists>s'. send_xmodem128_crc data max_failures progress_callback s = (Returned (), s')
      \<and> protocol s' = protocol s
      \<and> writes_of (trace s') = writes_of (trace s) @ transmissions data ks"
    by blast
qed

theorem retry_bound_witness:
  "length (replicate 128 (0 :: byte)) mod 128 = 0 \<and> (0 :: int) \<le> 1
   \<and> (\<exists>s'. send_xmodem128_crc (replicate 128 0) 1 False
             (start () [Recv [0x43], Recv [ACK], Recv [NAK, NAK]])
             = (Raised (TooManyFailures 1), s')
          \<and> protocol s' = Installed ()
          \<and> writes_of (trace s') = [block_wire (replicate 128 0) 0, [EOT], [EOT]])
   \<and> (\<exists>s'. send_xmodem128_crc (replicate 128 0) 1 False
             (start () [Recv [0x43], Recv [NAK, ACK, ACK]]) = (Returned (), s')
          \<and> protocol s' = Installed ()
          \<and> writes_of (trace s')
               = [block_wire (replicate 128 0) 0, block_wire (replicate 128 0) 0, [EOT]])"
proof -
  let ?data = "replicate 128 (0 :: byte)"
  let ?a = "[Recv [ACK], Recv [NAK, NAK]]"
  let ?b = "[Recv [NAK, ACK, ACK]]"
  have len: "length ?data mod 128 = 0" and m: "(0 :: int) \<le> 1" by simp_all
  have hs: "handshake (start () (Recv [0x43] # evs))
      = (Returned [0x43], \<lparr>protocol = StreamReaderProtocol, incoming = evs, buffer = [],
           eof = False, trace = [ReadUntil [0x43]]\<rparr>)" for evs
    using handshake_start [where pre = "[]" and junk = "[]" and p = "()" and evs = evs]
    by (simp add: LIMIT_def)
  have items: "item_wire ?data 0 = block_wire ?data 0" "item_wire ?data (Suc 0) = [EOT]"
    by (simp_all add: item_wire_def)
  have ka: "\<forall>k\<in>set [0 :: nat]. int k \<le> 1" and kb: "\<forall>k\<in>set [1, 0 :: nat]. int k \<le> 1"
    by simp_all
  from retry_bound [OF len m hs ka, where evs1 = ?a and later = "[]" and progress_callback = False,
      THEN conjunct2, THEN conjunct2, THEN conjunct1]
  have "\<exists>s'. send_xmodem128_crc ?data 1 False (start () (Recv [0x43] # ?a))
        = (Raised (TooManyFailures 1), s')
      \<and> protocol s' = Installed ()
      \<and> writes_of (trace s') = [block_wire ?data 0, [EOT], [EOT]]"
    by (auto simp: answers_def naks_then_def transmissions_def items start_def)
  moreover
  from retry_bound [OF len m hs kb, where evs1 = ?b and later = "[]" and progress_callback = False,
      THEN conjunct2, THEN conjunct2, THEN conjunct2]
  have "\<exists>s'. send_xmodem128_crc ?data 1 False (start () (Recv [0x43] # ?b)) = (Returned (), s')
      \<and> protocol s' = Installed ()
      \<and> writes_of (trace s') = [block_wire ?data 0, block_wire ?data 0, [EOT]]"
    by (auto simp: answers_def naks_then_def transmissions_def items start_def upt_rec)
  ultimately show ?thesis
    using len m by simp
qed

subsection \<open>The answers of the receiver\<close>

lemma exceptions_distinct:
  "ReceiverCancelled \<noteq> ProtocolViolation rsp"
  "ReceiverCancelled \<noteq> TooManyFailures m"
  "ProtocolViolation rsp \<noteq> TooManyFailures m"
  "InvalidInput len \<noteq> TooManyFailures m"
  "InvalidInput len \<noteq> ProtocolViolation rsp"
  "InvalidInput len \<noteq> ReceiverCancelled"
  by (simp_all add: ProtocolViolation_def TooManyFailures_def InvalidInput_def)

lemma last_exchange:
  assumes "rs \<noteq> []"
  shows "last (as @ exchange wire rs) = ReadExactly [last rs]"
proof -
  from assms have "rs = butlast rs @ [last rs]" by simp
  then have "exchange wire rs = exchange wire (butlast rs) @ [Wrote wire, ReadExactly [last rs]]"
    by (metis exchange_append exchange_Cons exchange_Nil append_Nil2)
  then show ?thesis by simp
qed

text \<open>
  C3. After every write of an item the transfer reads exactly one byte and acts on
  it: \<open>ACK\<close> (\<open>0x06\<close>) accepts the item and \<open>NAK\<close> (\<open>0x15\<close>) has it written again (the
  items before, answered by \<open>answers ks\<close>, and the \<open>k\<close> refusals of this one); on
  \<open>CAN\<close> (\<open>0x18\<close>) the transfer ends at once with \<open>ReceiverCancelled\<close>, and on any
  other byte at once with the \<open>ValueError\<close> for an invalid response, without a retry:
  in both cases the read of that byte is the last thing the transfer did, so nothing
  is written after it, and what the receiver sent after it is left unread. The
  three failures are different exceptions: \<open>ReceiverCancelled\<close> is a class of its
  own, the other two are \<open>ValueError\<close>s with different messages.
\<close>

theorem response_classification:
  fixes s :: "'p world"
  assumes "length data mod 128 = 0"
    and "handshake s = (Returned chunk, s1)"
    and "\<forall>k'\<in>set ks. int k' \<le> max_failures"
    and "length ks \<le> length data div 128"
    and "int k \<le> max_failures"
    and "r \<noteq> ACK" and "r \<noteq> NAK"
    and "stream_of (incoming s1) = answers ks @ naks_then k r @ later"
  shows
    "(\<exists>s'. send_xmodem128_crc data max_failures progress_callback s
             = (Raised (if r = CAN then ReceiverCancelled else ProtocolViolation [r]), s')
        \<and> protocol s' = protocol s
        \<and> trace s' = trace s @ handshake_trace data progress_callback chunk (buffer s1)
             @ blocks_trace data progress_callback 0 ks
             @ exchange (item_wire data (length ks)) (naks_then k r)
        \<and> last (trace s') = ReadExactly [r]
        \<and> pending s' = later)
     \<and> ACK = 0x06 \<and> NAK = 0x15 \<and> CAN = 0x18
     \<and> ReceiverCancelled \<noteq> ProtocolViolation rsp
     \<and> ReceiverCancelled \<noteq> TooManyFailures m
     \<and> ProtocolViolation rsp \<noteq> TooManyFailures m"
proof -
  let ?e = "if r = CAN then ReceiverCancelled else ProtocolViolation [r]"
  have out: "answer_outcome r = Raised ?e"
    using assms(6) by (simp add: answer_outcome_def)
  have "\<exists>s'. send_xmodem128_crc data max_failures progress_callback s = (Raised ?e, s')
      \<and> protocol s' = protocol s
      \<and> trace s' = trace s @ handshake_trace data progress_callback chunk (buffer s1)
           @ blocks_trace data progress_callback 0 ks
           @ exchange (item_wire data (length ks)) (naks_then k r)
      \<and> pending s' = later"
  proof (rule send_aborted [OF assms(1) assms(2) assms(8) assms(4) assms(3)])
    show "\<exists>s'. send_xmodem128_crc_data (item_wire data (length ks)) max_failures s0
          = (Raised ?e, s')
        \<and> pending s' = later
        \<and> trace s' = trace s0 @ exchange (item_wire data (length ks)) (naks_then k r)
        \<and> protocol s' = protocol s0"
      if "pending s0 = naks_then k r @ later" for s0 :: "'p world"
      using send_data_answer [OF assms(5) assms(7) that] out by simp
  qed
  then obtain s' where s':
    "send_xmodem128_crc data max_failures progress_callback s = (Raised ?e, s')"
    "protocol s' = protocol s"
    "trace s' = trace s @ handshake_trace data progress_callback chunk (buffer s1)
       @ blocks_trace data progress_callback 0 ks
       @ exchange (item_wire data (length ks)) (naks_then k r)"
    "pending s' = later"
    by blast
  have "last (trace s') = ReadExactly [last (naks_then k r)]"
    unfolding s'(3) append_assoc [symmetric] by (rule last_exchange) (simp add: naks_then_def)
  then have "last (trace s') = ReadExactly [r]"
    by (simp add: naks_then_def)
  with s' show ?thesis
    by (auto simp: exceptions_distinct ACK_def NAK_def CAN_def)
qed

theorem response_classification_witness:
  "length (replicate 128 (0 :: byte)) mod 128 = 0
   \<and> (\<exists>s'. send_xmodem128_crc (replicate 128 0) 3 False
             (start () [Recv [0x43], Recv [NAK], Recv [CAN, ACK]])
             = (Raised ReceiverCancelled, s')
          \<and> protocol s' = Installed ()
          \<and> last (trace s') = ReadExactly [CAN]
          \<and> writes_of (trace s') = [block_wire (replicate 128 0) 0, block_wire (replicate 128 0) 0]
          \<and> pending s' = [ACK])
   \<and> (\<exists>s'. send_xmodem128_crc (replicate 128 0) 3 False
             (start () [Recv [0x43], Recv [ACK], Recv [0x43]])
             = (Raised (ProtocolViolation [0x43]), s')
          \<and> protocol s' = Installed ()
          \<and> last (trace s') = ReadExactly [0x43]
          \<and> writes_of (trace s') = [block_wire (replicate 128 0) 0, [EOT]])"
proof -
  let ?data = "replicate 128 (0 :: byte)"
  have len: "length ?data mod 128 = 0" by simp
  have hs: "handshake (start () (Recv [0x43] # evs))
      = (Returned [0x43], \<lparr>protocol = StreamReaderProtocol, incoming = evs, buffer = [],
           eof = False, trace = [ReadUntil [0x43]]\<rparr>)" for evs
    using handshake_start [where pre = "[]" and junk = "[]" and p = "()" and evs = evs]
    by (simp add: LIMIT_def)
  have items: "item_wire ?data 0 = block_wire ?data 0" "item_wire ?data (Suc 0) = [EOT]"
    by (simp_all add: item_wire_def)
  have can: "CAN \<noteq> ACK" "CAN \<noteq> NAK" and c: "(0x43 :: byte) \<noteq> ACK" "(0x43 :: byte) \<noteq> NAK"
      "(0x43 :: byte) \<noteq> CAN"
    by (simp_all add: CAN_def ACK_def NAK_def)
  have "\<exists>s'. send_xmodem128_crc ?data 3 False (start () (Recv [0x43] # [Recv [NAK], Recv [CAN, ACK]]))
        = (Raised ReceiverCancelled, s')
      \<and> protocol s' = Installed ()
      \<and> last (trace s') = ReadExactly [CAN]
      \<and> writes_of (trace s') = [block_wire ?data 0, block_wire ?data 0]
      \<and> pending s' = [ACK]"
    using response_classification [OF len hs, where ks = "[]" and k = 1 and r = CAN
        and later = "[ACK]" and max_failures = 3 and progress_callback = False
        and evs1 = "[Recv [NAK], Recv [CAN, ACK]]" and rsp = "[]" and m = 0, THEN conjunct1] can
    by (auto simp: answers_def naks_then_def items start_def)
  moreover
  have "\<exists>s'. send_xmodem128_crc ?data 3 False (start () (Recv [0x43] # [Recv [ACK], Recv [0x43]]))
        = (Raised (ProtocolViolation [0x43]), s')
      \<and> protocol s' = Installed ()
      \<and> last (trace s') = ReadExactly [0x43]
      \<and> writes_of (trace s') = [block_wire ?data 0, [EOT]]"
    using response_classification [OF len hs, where ks = "[0]" and k = 0 and r = "0x43"
        and later = "[]" and max_failures = 3 and progress_callback = False
        and evs1 = "[Recv [ACK], Recv [0x43]]" and rsp = "[]" and m = 0, THEN conjunct1] c
    by (auto simp: answers_def naks_then_def items start_def)
  ultimately show ?thesis
    using len by simp
qed

subsection \<open>The length precondition\<close>

text \<open>
  C5. For every \<open>data\<close> whose length is not a multiple of 128,
  \<open>send_xmodem128_crc\<close> raises the \<open>ValueError\<close> for the data length at once and
  leaves the world as it found it: nothing is written, nothing is read, and the
  transport's protocol is not touched.
\<close>

theorem invalid_length_rejected:
  assumes "length data mod 128 \<noteq> 0"
  shows "send_xmodem128_crc data max_failures progress_callback s
           = (Raised (InvalidInput (length data)), s)
         \<and> InvalidInput (length data)
             = ValueError (''Data length must be divisible by 128: ''
                           @ str_int (int (length data)))"
proof -
  have "str_nat 128 = ''128''"
    by (simp add: digit_char_def)
  then have "str_int (int BLOCK_SIZE) = ''128''"
    by (simp add: str_int_def BLOCK_SIZE_def)
  then show ?thesis
    using assms by (simp add: send_xmodem128_crc_def BLOCK_SIZE_def InvalidInput_def)
qed

theorem invalid_length_rejected_witness:
  "length [0 :: byte, 1, 2] mod 128 \<noteq> 0
   \<and> send_xmodem128_crc [0, 1, 2] 3 True (start () [Recv [0x43], Recv [ACK]])
       = (Raised (ValueError ''Data length must be divisible by 128: 3''),
          start () [Recv [0x43], Recv [ACK]])"
proof -
  have ne: "length [0 :: byte, 1, 2] mod 128 \<noteq> 0" by simp
  have "str_int (int (length [0 :: byte, 1, 2])) = ''3''"
    by (simp add: str_int_def digit_char_def)
  with invalid_length_rejected [OF ne, of 3 True "start () [Recv [0x43], Recv [ACK]]"] ne
  show ?thesis by simp
qed

subsection \<open>A receiver that acknowledges everything\<close>

lemma progress_of_append [simp]: "progress_of (as @ bs) = progress_of as @ progress_of bs"
  by (induction as rule: progress_of.induct) simp_all

lemma progress_of_exchange [simp]: "progress_of (exchange wire rs) = []"
  by (induction rs) (simp_all add: exchange_Cons)

lemma progress_of_progress_call [simp]:
  "progress_of (progress_call cb sent total_bytes) = (if cb then [(sent, total_bytes)] else [])"
  by (simp add: progress_call_def)

lemma answers_all_ack: "answers (replicate j 0) = replicate j ACK"
  by (induction j) (simp_all add: answers_Cons naks_then_def)

lemma blocks_trace_all_ack:
  "blocks_trace data cb i (replicate j 0)
     = concat (map (\<lambda>i. [Wrote (block_wire data i), ReadExactly [ACK]]
                          @ progress_call cb ((int i + 1) * 128) (int (length data)))
                 [i..<i + j])"
proof (induction j arbitrary: i)
  case 0
  show ?case by simp
next
  case (Suc j)
  have "[i..<i + Suc j] = i # [Suc i..<Suc i + j]"
    by (simp add: upt_conv_Cons)
  then show ?case
    by (simp add: Suc.IH naks_then_def exchange_Cons)
qed

lemma writes_of_all_ack:
  "writes_of (concat (map (\<lambda>i. Wrote (f i) # ReadExactly [r] # progress_call cb (g i) t) is))
     = map f is"
  by (induction "is") simp_all

lemma progress_of_all_ack:
  "progress_of (concat (map (\<lambda>i. Wrote (f i) # ReadExactly [r] # progress_call cb (g i) t) is))
     = (if cb then map (\<lambda>i. (g i, t)) is else [])"
  by (induction "is") simp_all

lemma progress_points:
  "(0, t) # map (\<lambda>i. (int i * 128 + 128, t)) [0..<n] = map (\<lambda>j. (int j * 128, t)) [0..<n + 1]"
proof -
  have "[0..<n + 1] = 0 # map Suc [0..<n]"
    by (simp add: upt_conv_Cons map_Suc_upt del: upt_Suc)
  then show ?thesis
    by (simp add: o_def algebra_simps del: upt_Suc)
qed

lemma progress_points_increasing:
  "sorted_wrt (<) (map fst (map (\<lambda>j. (int j * 128, t :: int)) [0..<n]))"
  by (simp add: sorted_wrt_map o_def sorted_wrt_iff_nth_less)

text \<open>
  C6. With \<open>n = len(data) div 128\<close> and \<open>0 \<le> max_failures\<close>, when the handshake has
  returned and the receiver answers every write with \<open>ACK\<close>,
  \<open>send_xmodem128_crc\<close> returns after exactly \<open>n + 1\<close> writes: the \<open>n\<close> data
  packets in order and the single byte \<open>0x04\<close>. When a progress callback is
  supplied it is called exactly \<open>n + 1\<close> times: with \<open>(0, len(data))\<close> right after
  the read of the handshake (before the buffer is cleared and before the first
  write), then with \<open>((i + 1) * 128, len(data))\<close> right after the \<open>ACK\<close> of block \<open>i\<close>;
  the first arguments are strictly increasing and the last is \<open>len(data)\<close>. Without
  a callback there is no call.
\<close>

theorem all_acknowledged:
  fixes s :: "'p world"
  assumes "length data mod 128 = 0"
    and "0 \<le> max_failures"
    and "handshake s = (Returned chunk, s1)"
    and "stream_of (incoming s1) = replicate (length data div 128 + 1) ACK @ later"
  shows "\<exists>s' new.
      send_xmodem128_crc data max_failures progress_callback s = (Returned (), s')
      \<and> protocol s' = protocol s
      \<and> trace s' = trace s @ new
      \<and> new = [ReadUntil chunk] @ progress_call progress_callback 0 (int (length data))
              @ [Cleared (buffer s1)]
              @ concat (map (\<lambda>i. [Wrote (block_wire data i), ReadExactly [ACK]]
                                  @ progress_call progress_callback ((int i + 1) * 128)
                                      (int (length data)))
                          [0..<length data div 128])
              @ [Wrote [0x04], ReadExactly [ACK]]
      \<and> writes_of new = map (block_wire data) [0..<length data div 128] @ [[0x04]]
      \<and> length (writes_of new) = length data div 128 + 1
      \<and> progress_of new
           = (if progress_callback
              then map (\<lambda>j. (int j * 128, int (length data))) [0..<length data div 128 + 1]
              else [])
      \<and> sorted_wrt (<) (map fst (progress_of new))
      \<and> (progress_callback \<longrightarrow>
            length (progress_of new) = length data div 128 + 1
            \<and> hd (progress_of new) = (0, int (length data))
            \<and> fst (last (progress_of new)) = int (length data))"
proof -
  let ?n = "length data div 128"
  let ?t = "int (length data)"
  let ?blocks = "concat (map (\<lambda>i. [Wrote (block_wire data i), ReadExactly [ACK]]
      @ progress_call progress_callback ((int i + 1) * 128) ?t) [0..<?n])"
  let ?new = "[ReadUntil chunk] @ progress_call progress_callback 0 ?t @ [Cleared (buffer s1)]
      @ ?blocks @ [Wrote [0x04], ReadExactly [ACK]]"
  let ?points = "map (\<lambda>j. (int j * 128, ?t)) [0..<?n + 1]"
  have st: "stream_of (incoming s1) = answers (replicate ?n 0 @ [0]) @ later"
    using assms(4) by (simp add: answers_append answers_all_ack answers_Cons naks_then_def
        replicate_append_same)
  have ks: "\<forall>k\<in>set (replicate ?n (0 :: nat)). int k \<le> max_failures"
    and k: "int (0 :: nat) \<le> max_failures"
    using assms(2) by simp_all
  from send_accepted [OF assms(1) assms(3) st _ ks k, of progress_callback] obtain s' where s':
    "send_xmodem128_crc data max_failures progress_callback s = (Returned (), s')"
    "protocol s' = protocol s"
    "trace s' = trace s @ handshake_trace data progress_callback chunk (buffer s1)
       @ blocks_trace data progress_callback 0 (replicate ?n 0)
       @ exchange [EOT] (naks_then 0 ACK)"
    by auto
  have new: "trace s' = trace s @ ?new"
    using blocks_trace_all_ack [of data progress_callback 0 ?n]
    by (simp add: s'(3) handshake_trace_def naks_then_def exchange_Cons EOT_def)
  have writes: "writes_of ?new = map (block_wire data) [0..<?n] @ [[0x04]]"
    by (simp add: writes_of_all_ack)
  have progress: "progress_of ?new = (if progress_callback then ?points else [])"
    using progress_points [of ?t ?n] by (simp add: progress_of_all_ack)
  have sorted: "sorted_wrt (<) (map fst (progress_of ?new))"
    unfolding progress using progress_points_increasing [of ?t "?n + 1"] by simp
  have total: "int ?n * 128 = ?t"
    using assms(1) by (simp add: mod_eq_0_iff_dvd) (metis dvd_div_mult_self of_nat_mult of_nat_numeral)
  have "hd ?points = (0, ?t)"
    by (simp add: hd_map upt_conv_Cons del: upt_Suc)
  moreover have "fst (last ?points) = ?t"
    using total by simp
  ultimately have pts: "length ?points = ?n + 1" "hd ?points = (0, ?t)" "fst (last ?points) = ?t"
    by simp_all
  have called: "progress_callback \<longrightarrow>
      length (progress_of ?new) = ?n + 1 \<and> hd (progress_of ?new) = (0, ?t)
      \<and> fst (last (progress_of ?new)) = ?t"
    unfolding progress using pts by simp
  have "length (writes_of ?new) = ?n + 1"
    unfolding writes by simp
  with s'(1,2) new writes progress sorted called show ?thesis
    by blast
qed

theorem all_acknowledged_witness:
  "length (replicate 256 (0 :: byte)) mod 128 = 0 \<and> (0 :: int) \<le> 3
   \<and> (\<exists>s'. send_xmodem128_crc (replicate 256 0) 3 True
             (start () [Recv [0x43], Recv [ACK], Recv [ACK, ACK]]) = (Returned (), s')
          \<and> protocol s' = Installed ()
          \<and> writes_of (trace s')
               = [block_wire (replicate 256 0) 0, block_wire (replicate 256 0) 1, [0x04]]
          \<and> progress_of (trace s') = [(0, 256), (128, 256), (256, 256)])"
proof -
  let ?data = "replicate 256 (0 :: byte)"
  let ?evs = "[Recv [ACK], Recv [ACK, ACK]]"
  have len: "length ?data mod 128 = 0" and m: "(0 :: int) \<le> 3" by simp_all
  have hs: "handshake (start () (Recv [0x43] # ?evs))
      = (Returned [0x43], \<lparr>protocol = StreamReaderProtocol, incoming = ?evs, buffer = [],
           eof = False, trace = [ReadUntil [0x43]]\<rparr>)"
    using handshake_start [where pre = "[]" and junk = "[]" and p = "()" and evs = ?evs]
    by (simp add: LIMIT_def)
  have st: "stream_of (incoming \<lparr>protocol = StreamReaderProtocol :: unit protocol_ref,
      incoming = ?evs, buffer = [], eof = False, trace = [ReadUntil [0x43]]\<rparr>)
      = replicate (length ?data div 128 + 1) ACK @ []"
    by (simp add: numeral_3_eq_3)
  from all_acknowledged [OF len m hs st, of True] obtain s' new where
    "send_xmodem128_crc ?data 3 True (start () (Recv [0x43] # ?evs)) = (Returned (), s')"
    "protocol s' = protocol (start () (Recv [0x43] # ?evs))"
    "trace s' = trace (start () (Recv [0x43] # ?evs)) @ new"
    "writes_of new = map (block_wire ?data) [0..<length ?data div 128] @ [[0x04]]"
    "progress_of new = map (\<lambda>j. (int j * 128, int (length ?data))) [0..<length ?data div 128 + 1]"
    by auto
  then have "send_xmodem128_crc ?data 3 True (start () (Recv [0x43] # ?evs)) = (Returned (), s')
      \<and> protocol s' = Installed ()
      \<and> writes_of (trace s') = [block_wire ?data 0, block_wire ?data 1, [0x04]]
      \<and> progress_of (trace s') = [(0, 256), (128, 256), (256, 256)]"
    by (simp add: start_def upt_rec)
  then show ?thesis
    using len m by blast
qed

subsection \<open>Empty data\<close>

lemma bind_Returned [simp]: "bind (Returned x, s) f = f x s"
  by (simp add: bind_def)

lemma transfer_empty:
  "transfer [] m cb s0 =
     bind (readuntil 0x43 s0)
       (\<lambda>_ s1. send_xmodem128_crc_data [EOT] m
          (log (Cleared (buffer s1)) ((call_progress cb 0 0 s1)\<lparr>buffer := []\<rparr>)))"
proof -
  have "buffer (call_progress cb 0 0 s1) = buffer s1" for s1 :: "'a world"
    by simp
  then show ?thesis
    by (simp add: transfer_def Let_def BLOCK_SIZE_def)
qed

text \<open>
  C9. Empty data passes the length check: \<open>send_xmodem128_crc\<close> swaps the protocol,
  waits for the \<open>C\<close>, calls the progress callback (if one is supplied) once with
  \<open>(0, 0)\<close>, drops what is left in the buffer, sends no data packet, and writes the
  end-of-transmission byte under the usual handling of the answers: written again
  after each \<open>NAK\<close>, up to \<open>max_failures + 1\<close> times in all, and ending as the answer
  that is not a \<open>NAK\<close> says.
\<close>

theorem empty_data:
  fixes s :: "'p world"
  shows
    "send_xmodem128_crc [] max_failures progress_callback s
       = try_finally
           (\<lambda>s0. bind (readuntil 0x43 s0)
              (\<lambda>_ sh. send_xmodem128_crc_data [EOT] max_failures
                 (log (Cleared (buffer sh))
                    ((call_progress progress_callback 0 0 sh)\<lparr>buffer := []\<rparr>))))
           (\<lambda>s'. s'\<lparr>protocol := protocol s\<rparr>)
           (s\<lparr>buffer := [], eof := False, protocol := StreamReaderProtocol\<rparr>)
     \<and> (handshake s = (Returned chunk, sh) \<and> int k \<le> max_failures \<and> r \<noteq> NAK
          \<and> stream_of (incoming sh) = naks_then k r @ later
        \<longrightarrow> (\<exists>s'. send_xmodem128_crc [] max_failures progress_callback s
                      = (if r = ACK then Returned () else answer_outcome r, s')
                \<and> protocol s' = protocol s
                \<and> trace s' = trace s @ [ReadUntil chunk] @ progress_call progress_callback 0 0
                     @ [Cleared (buffer sh)] @ exchange [0x04] (naks_then k r)
                \<and> writes_of (trace s') = writes_of (trace s) @ replicate (Suc k) [0x04]
                \<and> progress_of (trace s')
                     = progress_of (trace s) @ (if progress_callback then [(0, 0)] else [])))
     \<and> (handshake s = (Returned chunk, sh) \<and> 0 \<le> max_failures
          \<and> stream_of (incoming sh) = replicate (Suc (nat max_failures)) NAK @ later
        \<longrightarrow> (\<exists>s'. send_xmodem128_crc [] max_failures progress_callback s
                      = (Raised (TooManyFailures max_failures), s')
                \<and> protocol s' = protocol s
                \<and> writes_of (trace s')
                     = writes_of (trace s) @ replicate (Suc (nat max_failures)) [0x04]))"
proof (intro conjI impI)
  have "transfer [] max_failures progress_callback
      = (\<lambda>s0. bind (readuntil 0x43 s0)
          (\<lambda>_ sh. send_xmodem128_crc_data [EOT] max_failures
             (log (Cleared (buffer sh))
                ((call_progress progress_callback 0 0 sh)\<lparr>buffer := []\<rparr>))))"
    by (rule ext) (rule transfer_empty)
  note tr = this
  have "send_xmodem128_crc [] max_failures progress_callback s
      = try_finally (transfer [] max_failures progress_callback)
          (\<lambda>s'. s'\<lparr>protocol := protocol s\<rparr>)
          (s\<lparr>buffer := [], eof := False, protocol := StreamReaderProtocol\<rparr>)"
    by (simp add: send_unfold)
  then show "send_xmodem128_crc [] max_failures progress_callback s
       = try_finally
           (\<lambda>s0. bind (readuntil 0x43 s0)
              (\<lambda>_ sh. send_xmodem128_crc_data [EOT] max_failures
                 (log (Cleared (buffer sh))
                    ((call_progress progress_callback 0 0 sh)\<lparr>buffer := []\<rparr>))))
           (\<lambda>s'. s'\<lparr>protocol := protocol s\<rparr>)
           (s\<lparr>buffer := [], eof := False, protocol := StreamReaderProtocol\<rparr>)"
    by (simp only: tr)
next
  let ?s0 = "s\<lparr>buffer := [], eof := False, protocol := StreamReaderProtocol\<rparr>"
  let ?s3 = "log (Cleared (buffer sh)) ((call_progress progress_callback 0 0 sh)\<lparr>buffer := []\<rparr>)"
  assume a: "handshake s = (Returned chunk, sh) \<and> int k \<le> max_failures \<and> r \<noteq> NAK
    \<and> stream_of (incoming sh) = naks_then k r @ later"
  then have hs: "handshake s = (Returned chunk, sh)" by simp
  then have ru: "readuntil 0x43 ?s0 = (Returned chunk, sh)" by (simp add: handshake_def)
  from handshake_returned [OF hs] have live: "\<not> eof sh"
    and t1: "trace sh = trace s @ [ReadUntil chunk]" by simp_all
  have t3: "trace ?s3 = trace sh @ progress_call progress_callback 0 0 @ [Cleared (buffer sh)]"
    and p3: "pending ?s3 = stream_of (incoming sh)"
    using cleared_fields(1) [of sh progress_callback "[]"]
      cleared_fields(3) [OF live, of progress_callback "[]"] by simp_all
  from a p3 have "int k \<le> max_failures" "r \<noteq> NAK" "pending ?s3 = naks_then k r @ later"
    by simp_all
  from send_data_answer [OF this, of "[EOT]"] obtain s5 where s5:
    "send_xmodem128_crc_data [EOT] max_failures ?s3 = (answer_outcome r, s5)"
    "trace s5 = trace ?s3 @ exchange [EOT] (naks_then k r)"
    by blast
  have exit: "answer_outcome r \<noteq> Suspended"
    by (simp add: answer_outcome_def)
  have "transfer [] max_failures progress_callback ?s0 = (answer_outcome r, s5)"
    using ru s5(1) by (simp add: transfer_empty)
  then have "send_xmodem128_crc [] max_failures progress_callback s
      = (answer_outcome r, s5\<lparr>protocol := protocol s\<rparr>)"
    using exit by (simp add: send_unfold try_finally_exit)
  moreover have "(if r = ACK then Returned () else answer_outcome r) = answer_outcome r"
    by (simp add: answer_outcome_def)
  ultimately show "\<exists>s'. send_xmodem128_crc [] max_failures progress_callback s
        = (if r = ACK then Returned () else answer_outcome r, s')
      \<and> protocol s' = protocol s
      \<and> trace s' = trace s @ [ReadUntil chunk] @ progress_call progress_callback 0 0
           @ [Cleared (buffer sh)] @ exchange [0x04] (naks_then k r)
      \<and> writes_of (trace s') = writes_of (trace s) @ replicate (Suc k) [0x04]
      \<and> progress_of (trace s')
           = progress_of (trace s) @ (if progress_callback then [(0, 0)] else [])"
    using s5(2) t3 t1 by (simp add: EOT_def)
next
  let ?s0 = "s\<lparr>buffer := [], eof := False, protocol := StreamReaderProtocol\<rparr>"
  let ?s3 = "log (Cleared (buffer sh)) ((call_progress progress_callback 0 0 sh)\<lparr>buffer := []\<rparr>)"
  assume a: "handshake s = (Returned chunk, sh) \<and> 0 \<le> max_failures
    \<and> stream_of (incoming sh) = replicate (Suc (nat max_failures)) NAK @ later"
  then have hs: "handshake s = (Returned chunk, sh)" by simp
  then have ru: "readuntil 0x43 ?s0 = (Returned chunk, sh)" by (simp add: handshake_def)
  from handshake_returned [OF hs] have live: "\<not> eof sh"
    and t1: "trace sh = trace s @ [ReadUntil chunk]" by simp_all
  have t3: "trace ?s3 = trace sh @ progress_call progress_callback 0 0 @ [Cleared (buffer sh)]"
    and p3: "pending ?s3 = stream_of (incoming sh)"
    using cleared_fields(1) [of sh progress_callback "[]"]
      cleared_fields(3) [OF live, of progress_callback "[]"] by simp_all
  from a p3 have "0 \<le> max_failures"
    "pending ?s3 = replicate (Suc (nat max_failures)) NAK @ later"
    by simp_all
  from send_data_naks [OF this, of "[EOT]"] obtain s5 where s5:
    "send_xmodem128_crc_data [EOT] max_failures ?s3 = (Raised (TooManyFailures max_failures), s5)"
    "trace s5 = trace ?s3 @ exchange [EOT] (replicate (Suc (nat max_failures)) NAK)"
    by blast
  have "transfer [] max_failures progress_callback ?s0
      = (Raised (TooManyFailures max_failures), s5)"
    using ru s5(1) by (simp add: transfer_empty)
  then have "send_xmodem128_crc [] max_failures progress_callback s
      = (Raised (TooManyFailures max_failures), s5\<lparr>protocol := protocol s\<rparr>)"
    by (simp add: send_unfold try_finally_exit)
  then show "\<exists>s'. send_xmodem128_crc [] max_failures progress_callback s
        = (Raised (TooManyFailures max_failures), s')
      \<and> protocol s' = protocol s
      \<and> writes_of (trace s')
           = writes_of (trace s) @ replicate (Suc (nat max_failures)) [0x04]"
    using s5(2) t3 t1 by (simp add: EOT_def)
qed

theorem empty_data_witness:
  "(\<exists>s'. send_xmodem128_crc [] 3 True (start () [Recv [0x43, 0x43], Recv [NAK, ACK]])
            = (Returned (), s')
       \<and> protocol s' = Installed ()
       \<and> trace s' = [ReadUntil [0x43], Progress 0 0, Cleared [0x43],
                      Wrote [0x04], ReadExactly [NAK], Wrote [0x04], ReadExactly [ACK]])
   \<and> (\<exists>s'. send_xmodem128_crc [] 3 False (start () [Recv [0x43], Recv [CAN]])
            = (Raised ReceiverCancelled, s')
       \<and> writes_of (trace s') = [[0x04]]
       \<and> progress_of (trace s') = [])"
proof -
  have hs: "handshake (start () (Recv ([0x43] @ junk) # evs))
      = (Returned [0x43], \<lparr>protocol = StreamReaderProtocol, incoming = evs, buffer = junk,
           eof = False, trace = [ReadUntil [0x43]]\<rparr>)" for junk evs
    using handshake_start [where pre = "[]" and junk = junk and p = "()" and evs = evs]
    by (simp add: LIMIT_def)
  have neq: "ACK \<noteq> NAK" "CAN \<noteq> NAK" "CAN \<noteq> ACK"
    by (simp_all add: ACK_def NAK_def CAN_def)
  have "\<exists>s'. send_xmodem128_crc [] 3 True (start () (Recv ([0x43] @ [0x43]) # [Recv [NAK, ACK]]))
        = (Returned (), s')
      \<and> protocol s' = Installed ()
      \<and> trace s' = [ReadUntil [0x43], Progress 0 0, Cleared [0x43],
                     Wrote [0x04], ReadExactly [NAK], Wrote [0x04], ReadExactly [ACK]]"
    using empty_data [where s = "start () (Recv ([0x43] @ [0x43]) # [Recv [NAK, ACK]])"
        and max_failures = 3 and progress_callback = True and chunk = "[0x43]"
        and sh = "\<lparr>protocol = StreamReaderProtocol, incoming = [Recv [NAK, ACK]],
          buffer = [0x43], eof = False, trace = [ReadUntil [0x43]]\<rparr>"
        and k = 1 and r = ACK and later = "[]", THEN conjunct2, THEN conjunct1] hs neq
    by (auto simp: naks_then_def start_def progress_call_def exchange_Cons)
  moreover
  have "\<exists>s'. send_xmodem128_crc [] 3 False (start () (Recv ([0x43] @ []) # [Recv [CAN]]))
        = (Raised ReceiverCancelled, s')
      \<and> writes_of (trace s') = [[0x04]]
      \<and> progress_of (trace s') = []"
    using empty_data [where s = "start () (Recv ([0x43] @ []) # [Recv [CAN]])"
        and max_failures = 3 and progress_callback = False and chunk = "[0x43]"
        and sh = "\<lparr>protocol = StreamReaderProtocol, incoming = [Recv [CAN]],
          buffer = [], eof = False, trace = [ReadUntil [0x43]]\<rparr>"
        and k = 0 and r = CAN and later = "[]", THEN conjunct2, THEN conjunct1] hs neq
    by (auto simp: naks_then_def start_def answer_outcome_def)
  ultimately show ?thesis by simp
qed

subsection \<open>Every way out restores the protocol\<close>

lemma readexactly_1_exit:
  "protocol (snd (readexactly_1 s)) = protocol s
   \<and> (fst (readexactly_1 s) \<in> {Suspended, Raised CancelledError, Raised IncompleteReadError}
        \<or> (\<exists>b. fst (readexactly_1 s) = Returned [b]))"
proof (induction s rule: readexactly_1.induct)
  case (1 s)
  show ?case
  proof (cases "buffer s")
    case (Cons b rest)
    then show ?thesis
      by (subst (1 2 3) readexactly_1.simps) simp
  next
    case Nil
    show ?thesis
    proof (cases "eof s")
      case True
      with Nil show ?thesis
        by (subst (1 2 3) readexactly_1.simps) simp
    next
      case False
      show ?thesis
      proof (cases "incoming s")
        case Nil' : Nil
        with Nil False show ?thesis
          by (subst (1 2 3) readexactly_1.simps) simp
      next
        case (Cons ev evs)
        show ?thesis
        proof (cases ev)
          case (Recv bs)
          have "readexactly_1 s = readexactly_1 (s\<lparr>incoming := evs, buffer := buffer s @ bs\<rparr>)"
            using Nil False Cons Recv by (subst readexactly_1.simps) simp
          with "1.IH"(1) [OF Nil False Cons Recv] show ?thesis by simp
        next
          case Eof
          have "readexactly_1 s = readexactly_1 (s\<lparr>incoming := evs, eof := True\<rparr>)"
            using Nil False Cons Eof by (subst readexactly_1.simps) simp
          with "1.IH"(2) [OF Nil False Cons Eof] show ?thesis by simp
        next
          case Cancel
          with Nil False Cons show ?thesis
            by (subst (1 2 3) readexactly_1.simps) simp
        qed
      qed
    qed
  qed
qed

lemma readuntil_exit:
  "protocol (snd (readuntil sep s)) = protocol s
   \<and> (fst (readuntil sep s)
         \<in> {Suspended, Raised CancelledError, Raised IncompleteReadError, Raised LimitOverrunError}
        \<or> (\<exists>chunk. fst (readuntil sep s) = Returned chunk))"
proof (induction sep s rule: readuntil.induct)
  case (1 sep s)
  show ?case
  proof (cases "sep \<in> set (buffer s) \<or> LIMIT < length (buffer s) \<or> eof s")
    case True
    then show ?thesis
      by (subst (1 2 3) readuntil.simps) (auto simp: Let_def)
  next
    case False
    then have a: "sep \<notin> set (buffer s)" "\<not> LIMIT < length (buffer s)" "\<not> eof s"
      by simp_all
    show ?thesis
    proof (cases "incoming s")
      case Nil
      with a show ?thesis
        by (subst (1 2 3) readuntil.simps) simp
    next
      case (Cons ev evs)
      show ?thesis
      proof (cases ev)
        case (Recv bs)
        have "readuntil sep s = readuntil sep (s\<lparr>incoming := evs, buffer := buffer s @ bs\<rparr>)"
          using a Cons Recv by (subst readuntil.simps) simp
        with "1.IH"(1) [OF a Cons Recv] show ?thesis by simp
      next
        case Eof
        have "readuntil sep s = readuntil sep (s\<lparr>incoming := evs, eof := True\<rparr>)"
          using a Cons Eof by (subst readuntil.simps) simp
        with "1.IH"(2) [OF a Cons Eof] show ?thesis by simp
      next
        case Cancel
        with a Cons show ?thesis
          by (subst (1 2 3) readuntil.simps) simp
      qed
    qed
  qed
qed

lemma transfer_exits_members:
  "Returned () \<in> transfer_exits m" "Suspended \<in> transfer_exits m"
  "Raised (TooManyFailures m) \<in> transfer_exits m" "Raised ReceiverCancelled \<in> transfer_exits m"
  "Raised CancelledError \<in> transfer_exits m" "Raised IncompleteReadError \<in> transfer_exits m"
  "Raised LimitOverrunError \<in> transfer_exits m" "Raised (ProtocolViolation [b]) \<in> transfer_exits m"
  by (simp_all add: transfer_exits_def)

lemma attempts_loop_exit:
  "protocol (snd (attempts_loop wire m as s)) = protocol s
   \<and> fst (attempts_loop wire m as s) \<in> transfer_exits m"
proof (induction as arbitrary: s)
  case Nil
  show ?case by (simp add: transfer_exits_members)
next
  case (Cons a as)
  obtain r s1 where read: "readexactly_1 (log (Wrote wire) s) = (r, s1)"
    by (cases "readexactly_1 (log (Wrote wire) s)")
  with readexactly_1_exit [of "log (Wrote wire) s"] have p1: "protocol s1 = protocol s"
    and r: "r \<in> {Suspended, Raised CancelledError, Raised IncompleteReadError}
      \<or> (\<exists>b. r = Returned [b])"
    by simp_all
  from r show ?case
  proof
    assume "r \<in> {Suspended, Raised CancelledError, Raised IncompleteReadError}"
    with read p1 show ?thesis
      by (auto simp: bind_def transfer_exits_members)
  next
    assume "\<exists>b. r = Returned [b]"
    then obtain b where "r = Returned [b]" ..
    with read p1 Cons.IH [of s1] show ?thesis
      by (simp add: bind_def transfer_exits_members)
  qed
qed

lemma send_data_exit:
  "protocol (snd (send_xmodem128_crc_data wire m s)) = protocol s
   \<and> fst (send_xmodem128_crc_data wire m s) \<in> transfer_exits m"
  unfolding send_xmodem128_crc_data_def by (rule attempts_loop_exit)

lemma blocks_loop_exit:
  "protocol (snd (blocks_loop data m cb is s)) = protocol s
   \<and> fst (blocks_loop data m cb is s) \<in> transfer_exits m"
proof (induction "is" arbitrary: s)
  case Nil
  show ?case by (simp add: transfer_exits_members)
next
  case (Cons i "is")
  obtain r s1 where sent: "send_xmodem128_crc_data (block_wire data i) m s = (r, s1)"
    by (cases "send_xmodem128_crc_data (block_wire data i) m s")
  with send_data_exit [of "block_wire data i" m s] have p1: "protocol s1 = protocol s"
    and r: "r \<in> transfer_exits m"
    by simp_all
  show ?case
  proof (cases r)
    case (Returned u)
    with sent p1
      Cons.IH [of "call_progress cb ((int i + 1) * int BLOCK_SIZE) (int (length data)) s1"]
    show ?thesis
      by (simp add: serialize_make_packet)
  next
    case (Raised e)
    with sent p1 r show ?thesis
      by (simp add: serialize_make_packet bind_def)
  next
    case Suspended
    with sent p1 r show ?thesis
      by (simp add: serialize_make_packet bind_def)
  qed
qed

lemma transfer_exit:
  "protocol (snd (transfer data m cb s)) = protocol s
   \<and> fst (transfer data m cb s) \<in> transfer_exits m"
proof -
  obtain r s1 where ru: "readuntil 0x43 s = (r, s1)"
    by (cases "readuntil 0x43 s")
  with readuntil_exit [of "0x43" s] have p1: "protocol s1 = protocol s"
    and r: "r \<in> {Suspended, Raised CancelledError, Raised IncompleteReadError,
        Raised LimitOverrunError} \<or> (\<exists>chunk. r = Returned chunk)"
    by simp_all
  from r show ?thesis
  proof
    assume "r \<in> {Suspended, Raised CancelledError, Raised IncompleteReadError,
      Raised LimitOverrunError}"
    with ru p1 show ?thesis
      by (auto simp: transfer_def bind_def transfer_exits_members)
  next
    assume "\<exists>chunk. r = Returned chunk"
    then obtain chunk where chunk: "r = Returned chunk" ..
    let ?s3 = "log (Cleared (buffer s1))
      ((call_progress cb 0 (int (length data)) s1)\<lparr>buffer := []\<rparr>)"
    have p3: "protocol ?s3 = protocol s"
      using p1 by simp
    obtain r4 s4 where blocks:
      "blocks_loop data m cb [0..<length data div 128] ?s3 = (r4, s4)"
      by (cases "blocks_loop data m cb [0..<length data div 128] ?s3")
    with blocks_loop_exit [of data m cb "[0..<length data div 128]" ?s3] p3
    have p4: "protocol s4 = protocol s" and r4: "r4 \<in> transfer_exits m"
      by simp_all
    have tr: "transfer data m cb s = bind (r4, s4) (\<lambda>_ s4. send_xmodem128_crc_data [EOT] m s4)"
      using ru chunk blocks by (simp add: transfer_after_handshake)
    show ?thesis
    proof (cases r4)
      case (Returned u)
      with tr p4 send_data_exit [of "[EOT]" m s4] show ?thesis
        by simp
    next
      case (Raised e)
      with tr p4 r4 show ?thesis
        by (simp add: bind_def)
    next
      case Suspended
      with tr p4 r4 show ?thesis
        by (simp add: bind_def)
    qed
  qed
qed

text \<open>
  C4. For every call of \<open>send_xmodem128_crc\<close> that passes the length check, and for
  every receiver and every moment of cancellation: whenever the call ends, by
  returning or by raising (the failure for too many refusals, \<open>ReceiverCancelled\<close>,
  the failure for an invalid response, the \<open>CancelledError\<close> of a task cancelled in a
  read, or the reader's \<open>IncompleteReadError\<close> and \<open>LimitOverrunError\<close>), the
  transport's protocol is the one it had before the call; these are all the ways
  the call can end. Only a call that is still suspended in a read has the reader's
  protocol installed.
\<close>

theorem protocol_restored:
  fixes s :: "'p world"
  assumes "length data mod 128 = 0"
  shows "(fst (send_xmodem128_crc data max_failures progress_callback s) \<noteq> Suspended
            \<longrightarrow> protocol (snd (send_xmodem128_crc data max_failures progress_callback s))
                  = protocol s)
       \<and> (fst (send_xmodem128_crc data max_failures progress_callback s) = Suspended
            \<longrightarrow> protocol (snd (send_xmodem128_crc data max_failures progress_callback s))
                  = StreamReaderProtocol)
       \<and> fst (send_xmodem128_crc data max_failures progress_callback s)
            \<in> transfer_exits max_failures"
proof -
  let ?s0 = "s\<lparr>buffer := [], eof := False, protocol := StreamReaderProtocol\<rparr>"
  obtain r s' where tr: "transfer data max_failures progress_callback ?s0 = (r, s')"
    by (cases "transfer data max_failures progress_callback ?s0")
  with transfer_exit [of data max_failures progress_callback ?s0]
  have p: "protocol s' = StreamReaderProtocol" and r: "r \<in> transfer_exits max_failures"
    by simp_all
  show ?thesis
  proof (cases "r = Suspended")
    case True
    with tr p r show ?thesis
      by (simp add: send_unfold [OF assms] try_finally_def)
  next
    case False
    with tr r show ?thesis
      by (simp add: send_unfold [OF assms] try_finally_exit)
  qed
qed

theorem protocol_restored_witness:
  "length ([] :: bytes) mod 128 = 0
   \<and> fst (send_xmodem128_crc [] 3 False (start () [Recv [0x43], Recv [NAK], Cancel]))
       = Raised CancelledError
   \<and> protocol (snd (send_xmodem128_crc [] 3 False (start () [Recv [0x43], Recv [NAK], Cancel])))
       = Installed ()
   \<and> fst (send_xmodem128_crc [] 3 False (start () [Recv [0x43], Recv [NAK]])) = Suspended
   \<and> protocol (snd (send_xmodem128_crc [] 3 False (start () [Recv [0x43], Recv [NAK]])))
       = StreamReaderProtocol"
proof -
  have hs: "handshake (start () (Recv ([] @ [0x43] @ []) # evs))
      = (Returned [0x43], \<lparr>protocol = StreamReaderProtocol, incoming = evs, buffer = [],
           eof = False, trace = [ReadUntil [0x43]]\<rparr>)" for evs
    using handshake_start [where pre = "[]" and junk = "[]" and p = "()" and evs = evs]
    by (simp add: LIMIT_def)
  have rd: "readexactly_1 \<lparr>protocol = p, incoming = Recv [b] # evs, buffer = [], eof = False,
        trace = t\<rparr>
      = (Returned [b], \<lparr>protocol = p, incoming = evs, buffer = [], eof = False,
           trace = t @ [ReadExactly [b]]\<rparr>)" for p :: "unit protocol_ref" and b evs t
    by (simp add: readexactly_1.simps [of "\<lparr>protocol = _, incoming = _, buffer = _, eof = _,
          trace = _\<rparr>"] log_def)
  have cancelled: "readexactly_1 \<lparr>protocol = p, incoming = Cancel # evs, buffer = [],
        eof = False, trace = t\<rparr>
      = (Raised CancelledError, \<lparr>protocol = p, incoming = evs, buffer = [], eof = False,
           trace = t\<rparr>)" for p :: "unit protocol_ref" and evs t
    by (simp add: readexactly_1.simps [of "\<lparr>protocol = _, incoming = _, buffer = _, eof = _,
          trace = _\<rparr>"])
  have waiting: "readexactly_1 \<lparr>protocol = p, incoming = [], buffer = [],
        eof = False, trace = t\<rparr>
      = (Suspended, \<lparr>protocol = p, incoming = [], buffer = [], eof = False, trace = t\<rparr>)"
    for p :: "unit protocol_ref" and t
    by (simp add: readexactly_1.simps [of "\<lparr>protocol = _, incoming = _, buffer = _, eof = _,
          trace = _\<rparr>"])
  have neq: "NAK \<noteq> ACK"
    by (simp add: ACK_def NAK_def)
  have tr: "transfer [] 3 False (s\<lparr>buffer := [], eof := False, protocol := StreamReaderProtocol\<rparr>)
      = bind (handshake s) (\<lambda>_ s1. send_xmodem128_crc_data [EOT] 3
          (log (Cleared (buffer s1)) (s1\<lparr>buffer := []\<rparr>)))" for s :: "unit world"
    by (cases "handshake s")
      (auto simp: transfer_def handshake_def bind_def call_progress_def split: outcome.splits)
  have upto: "[0..3] = [0, 1, 2, 3 :: int]"
    by (simp add: upto.simps)
  have a: "fst (send_xmodem128_crc [] 3 False (start () [Recv [0x43], Recv [NAK], Cancel]))
      = Raised CancelledError"
    using hs [of "[Recv [NAK], Cancel]"] neq
    by (simp add: send_unfold tr try_finally_def bind_def send_xmodem128_crc_data_def upto
        log_def rd cancelled)
  have b: "fst (send_xmodem128_crc [] 3 False (start () [Recv [0x43], Recv [NAK]])) = Suspended"
    using hs [of "[Recv [NAK]]"] neq
    by (simp add: send_unfold tr try_finally_def bind_def send_xmodem128_crc_data_def upto
        log_def rd waiting)
  from protocol_restored [where data = "[]" and max_failures = 3 and progress_callback = False
      and s = "start () [Recv [0x43], Recv [NAK], Cancel]"]
    protocol_restored [where data = "[]" and max_failures = 3 and progress_callback = False
      and s = "start () [Recv [0x43], Recv [NAK]]"] a b
  show ?thesis
    by (simp add: start_def)
qed

section \<open>StateMachine\<close>

text \<open>The messages, on two examples.\<close>

lemma unknown_state_message:
  "UnknownState ''bogus'' [''idle'', ''closed'']
     = ValueError ''Unknown state 'bogus': expected {'idle', 'closed'}''"
  \<open>UnknownInitialState ''it's'' [] = ValueError (''Unknown initial state "it's": expected set()'')\<close>
  by (simp_all add: UnknownState_def UnknownInitialState_def repr_str_def repr_set_def
      repr_char_def hex_digit_def Let_def)

lemma set_results_frame:
  "self (snd (set_results fs w)) = self w \<and> created (snd (set_results fs w)) = created w"
  by (induction fs arbitrary: w) (simp_all add: set_result_def)

lemma set_results_other:
  "f \<notin> set fs \<Longrightarrow> futures (snd (set_results fs w)) f = futures w f"
  by (induction fs arbitrary: w) (simp_all add: set_result_def)

lemma set_results_exits:
  "fst (set_results fs w) = Returned () \<or> fst (set_results fs w) = Raised InvalidStateError"
  by (induction fs arbitrary: w) (simp_all add: set_result_def)

lemma set_results_returned_iff:
  "fst (set_results fs w) = Returned ()
     \<longleftrightarrow> distinct fs \<and> (\<forall>f\<in>set fs. futures w f = PENDING)"
proof (induction fs arbitrary: w)
  case Nil
  show ?case by simp
next
  case (Cons f fs)
  show ?case
  proof (cases "futures w f = PENDING")
    case False
    then show ?thesis by (simp add: set_result_def)
  next
    case True
    let ?w' = "w\<lparr>futures := (futures w)(f := FINISHED)\<rparr>"
    have "fst (set_results (f # fs) w) = fst (set_results fs ?w')"
      using True by (simp add: set_result_def)
    also have "\<dots> = Returned () \<longleftrightarrow> distinct fs \<and> (\<forall>g\<in>set fs. futures ?w' g = PENDING)"
      by (rule Cons.IH)
    also have "\<dots> \<longleftrightarrow> distinct (f # fs) \<and> (\<forall>g\<in>set (f # fs). futures w g = PENDING)"
      using True by auto
    finally show ?thesis .
  qed
qed

lemma set_results_finished:
  "fst (set_results fs w) = Returned () \<Longrightarrow> f \<in> set fs
     \<Longrightarrow> futures (snd (set_results fs w)) f = FINISHED"
proof (induction fs arbitrary: w)
  case Nil
  then show ?case by simp
next
  case (Cons g fs)
  from Cons.prems(1) have pending: "futures w g = PENDING"
    by (auto simp: set_result_def split: if_splits)
  let ?w' = "w\<lparr>futures := (futures w)(g := FINISHED)\<rparr>"
  have step: "set_results (g # fs) w = set_results fs ?w'"
    using pending by (simp add: set_result_def)
  show ?case
  proof (cases "f \<in> set fs")
    case True
    with Cons.IH [of ?w'] Cons.prems(1) step show ?thesis by simp
  next
    case False
    with Cons.prems(2) have "f = g" by simp
    with False step set_results_other [of g fs ?w'] show ?thesis by simp
  qed
qed

lemma init_iff:
  "(\<exists>e. StateMachine_init declared initial = Inl e) \<longleftrightarrow> initial \<notin> set declared"
  by (simp add: StateMachine_init_def)

lemma init_invariant:
  "StateMachine_init declared initial = Inr m \<Longrightarrow> state m \<in> set (states m)"
  by (auto simp: StateMachine_init_def split: if_splits)

lemma waiters_getitem:
  "fst (getitem key (futures_for_state (self w))) = waiters w key"
  by (simp add: getitem_def waiters_def split: option.splits)

lemma waiters_after_getitem:
  "waiters (w\<lparr>self := (self w)\<lparr>state := st,
       futures_for_state := snd (getitem key (futures_for_state (self w)))\<rparr>\<rparr>) k = waiters w k"
  by (simp add: getitem_def waiters_def split: option.splits)

lemma waiters_cong:
  "futures_for_state (self w') = futures_for_state (self w) \<Longrightarrow> waiters w' k = waiters w k"
  by (simp add: waiters_def)

text \<open>The setter on a declared state: the state is set, then the registered futures are resolved.\<close>

lemma setter_declared:
  assumes "to \<in> set (states (self w))"
  shows "state_setter to w =
     set_results (waiters w to)
       (w\<lparr>self := (self w)\<lparr>state := to,
          futures_for_state := snd (getitem to (futures_for_state (self w)))\<rparr>\<rparr>)"
  using assms waiters_getitem [of to w]
  by (simp add: state_setter_def Let_def case_prod_unfold)

lemma setter_undeclared:
  "to \<notin> set (states (self w))
     \<Longrightarrow> state_setter to w = (Raised (UnknownState to (states (self w))), w)"
  by (simp add: state_setter_def)

lemma setter_value_error_iff:
  "(\<exists>msg. fst (state_setter to w) = Raised (ValueError msg)) \<longleftrightarrow> to \<notin> set (states (self w))"
proof (cases "to \<in> set (states (self w))")
  case True
  let ?w2 = "w\<lparr>self := (self w)\<lparr>state := to,
          futures_for_state := snd (getitem to (futures_for_state (self w)))\<rparr>\<rparr>"
  from set_results_exits [of "waiters w to" ?w2] True show ?thesis
    by (auto simp: setter_declared)
next
  case False
  then show ?thesis
    by (simp add: setter_undeclared UnknownState_def)
qed

lemma setter_returned_iff:
  "fst (state_setter to w) = Returned ()
     \<longleftrightarrow> to \<in> set (states (self w)) \<and> distinct (waiters w to)
          \<and> (\<forall>f\<in>set (waiters w to). futures w f = PENDING)"
proof (cases "to \<in> set (states (self w))")
  case True
  then show ?thesis
    by (simp add: setter_declared set_results_returned_iff)
next
  case False
  then show ?thesis
    by (simp add: setter_undeclared)
qed

lemma setter_success:
  assumes ok: "fst (state_setter to w) = Returned ()"
  shows "state (self (snd (state_setter to w))) = to"
    and "states (self (snd (state_setter to w))) = states (self w)"
    and "\<forall>f\<in>set (waiters w to). futures (snd (state_setter to w)) f = FINISHED"
    and "\<forall>f. f \<notin> set (waiters w to) \<longrightarrow> futures (snd (state_setter to w)) f = futures w f"
    and "\<forall>key. waiters (snd (state_setter to w)) key = waiters w key"
    and "created (snd (state_setter to w)) = created w"
proof -
  let ?w2 = "w\<lparr>self := (self w)\<lparr>state := to,
          futures_for_state := snd (getitem to (futures_for_state (self w)))\<rparr>\<rparr>"
  from ok have declared: "to \<in> set (states (self w))"
    by (simp add: setter_returned_iff)
  then have eq: "state_setter to w = set_results (waiters w to) ?w2"
    by (rule setter_declared)
  have frame: "self (snd (state_setter to w)) = self ?w2"
    "created (snd (state_setter to w)) = created w"
    using set_results_frame [of "waiters w to" ?w2] by (simp_all add: eq)
  show "state (self (snd (state_setter to w))) = to"
    by (simp add: frame)
  show "states (self (snd (state_setter to w))) = states (self w)"
    by (simp add: frame)
  show "created (snd (state_setter to w)) = created w"
    by (rule frame)
  show "\<forall>f\<in>set (waiters w to). futures (snd (state_setter to w)) f = FINISHED"
    using ok set_results_finished [of "waiters w to" ?w2] by (simp add: eq)
  show "\<forall>f. f \<notin> set (waiters w to) \<longrightarrow> futures (snd (state_setter to w)) f = futures w f"
    using set_results_other [of _ "waiters w to" ?w2] by (simp add: eq)
  show "\<forall>key. waiters (snd (state_setter to w)) key = waiters w key"
  proof
    fix key
    have "waiters (snd (state_setter to w)) key = waiters ?w2 key"
      by (rule waiters_cong) (simp add: frame)
    also have "\<dots> = waiters w key"
      by (rule waiters_after_getitem)
    finally show "waiters (snd (state_setter to w)) key = waiters w key" .
  qed
qed

text \<open>
  The active state is always a declared one: the constructor and the setter check
  it, also when the setter stops at a future that is not pending.
\<close>

lemma setter_invariant:
  assumes "state (self w) \<in> set (states (self w))"
  shows "state (self (snd (state_setter to w))) \<in> set (states (self (snd (state_setter to w))))"
proof (cases "to \<in> set (states (self w))")
  case True
  let ?w2 = "w\<lparr>self := (self w)\<lparr>state := to,
          futures_for_state := snd (getitem to (futures_for_state (self w)))\<rparr>\<rparr>"
  from True set_results_frame [of "waiters w to" ?w2] show ?thesis
    by (simp add: setter_declared)
next
  case False
  with assms show ?thesis
    by (simp add: setter_undeclared)
qed

lemma wait_active:
  "state (self w) \<in> set (states (self w))
     \<Longrightarrow> wait_for_state (state (self w)) w = (Returned (), w)"
  by (simp add: wait_for_state_def)

text \<open>
  A wait for a declared state that is not the active one creates a future,
  registers it last in the list of that state, and suspends.
\<close>

lemma wait_suspends:
  assumes "st \<in> set (states (self w))" "state (self w) \<noteq> st"
  shows "fst (wait_for_state st w) = Suspended"
    and "waiters (snd (wait_for_state st w)) st = waiters w st @ [created w]"
    and "key \<noteq> st \<Longrightarrow> waiters (snd (wait_for_state st w)) key = waiters w key"
    and "futures (snd (wait_for_state st w)) (created w) = PENDING"
    and "created (snd (wait_for_state st w)) = created w + 1"
    and "states (self (snd (wait_for_state st w))) = states (self w)"
    and "state (self (snd (wait_for_state st w))) = state (self w)"
    and "f \<noteq> created w \<Longrightarrow> futures (snd (wait_for_state st w)) f = futures w f"
  using assms
  by (simp_all add: wait_for_state_def create_future_def getitem_def await_future_def
      waiters_def Let_def split: option.splits)

text \<open>
  Once the setter has finished the future, the resumed wait returns and the future
  is no longer registered; a cancelled wait raises \<open>CancelledError\<close>, and the future
  is no longer registered either.
\<close>

lemma resume_finished:
  assumes "futures w f = FINISHED" "f \<in> set (waiters w st)"
  shows "fst (await_future f st w) = Returned ()"
    and "waiters (snd (await_future f st w)) st = remove1 f (waiters w st)"
proof -
  from assms(2) obtain fs where "futures_for_state (self w) st = Some fs" "f \<in> set fs"
    by (cases "futures_for_state (self w) st") (simp_all add: waiters_def)
  with assms(1) show "fst (await_future f st w) = Returned ()"
    by (simp add: await_future_def remove_future_def getitem_def)
  from \<open>futures_for_state (self w) st = Some fs\<close> \<open>f \<in> set fs\<close> assms(1) show "waiters (snd (await_future f st w)) st = remove1 f (waiters w st)"
    by (simp add: await_future_def remove_future_def getitem_def waiters_def)
qed

lemma resume_cancelled:
  assumes "futures w f = CANCELLED" "f \<in> set (waiters w st)"
  shows "fst (await_future f st w) = Raised CancelledError"
    and "waiters (snd (await_future f st w)) st = remove1 f (waiters w st)"
proof -
  from assms(2) obtain fs where "futures_for_state (self w) st = Some fs" "f \<in> set fs"
    by (cases "futures_for_state (self w) st") (simp_all add: waiters_def)
  with assms(1) show "fst (await_future f st w) = Raised CancelledError"
    by (simp add: await_future_def remove_future_def getitem_def)
  from \<open>futures_for_state (self w) st = Some fs\<close> \<open>f \<in> set fs\<close> assms(1) show "waiters (snd (await_future f st w)) st = remove1 f (waiters w st)"
    by (simp add: await_future_def remove_future_def getitem_def waiters_def)
qed

text \<open>
  C8. The constructor raises its \<open>ValueError\<close> exactly when the initial state is not
  among the declared ones. The setter of \<open>state\<close> raises a \<open>ValueError\<close> exactly when the
  new state is not among the declared ones, and then the machine, its registered
  futures and the futures of the loop are all as before. When the setter returns,
  the new state is the active one, every future that was registered for it is
  finished, every other future is as before, and the registrations are as before
  (a waiter removes its own when it is resumed). The setter returns exactly when
  the state is declared and the futures registered for it are pending and listed
  once; otherwise it stops with the \<open>InvalidStateError\<close> of \<open>set_result\<close>.
  \<open>wait_for_state\<close> on the active state returns at once, with nothing created and
  nothing registered.
\<close>

theorem state_machine_contract:
  "((\<exists>e. StateMachine_init declared initial = Inl e) \<longleftrightarrow> initial \<notin> set declared)
   \<and> (initial \<notin> set declared
        \<longrightarrow> StateMachine_init declared initial = Inl (UnknownInitialState initial declared))
   \<and> (initial \<in> set declared
        \<longrightarrow> StateMachine_init declared initial
              = Inr \<lparr>states = declared, state = initial, futures_for_state = Map.empty\<rparr>)
   \<and> ((\<exists>msg. fst (state_setter to w) = Raised (ValueError msg))
        \<longleftrightarrow> to \<notin> set (states (self w)))
   \<and> (to \<notin> set (states (self w))
        \<longrightarrow> state_setter to w = (Raised (UnknownState to (states (self w))), w))
   \<and> (fst (state_setter to w) = Returned ()
        \<longrightarrow> state (self (snd (state_setter to w))) = to
          \<and> states (self (snd (state_setter to w))) = states (self w)
          \<and> (\<forall>f\<in>set (waiters w to). futures (snd (state_setter to w)) f = FINISHED)
          \<and> (\<forall>f. f \<notin> set (waiters w to)
                \<longrightarrow> futures (snd (state_setter to w)) f = futures w f)
          \<and> (\<forall>key. waiters (snd (state_setter to w)) key = waiters w key))
   \<and> (fst (state_setter to w) = Returned ()
        \<longleftrightarrow> to \<in> set (states (self w)) \<and> distinct (waiters w to)
             \<and> (\<forall>f\<in>set (waiters w to). futures w f = PENDING))
   \<and> (fst (state_setter to w) = Returned ()
        \<or> fst (state_setter to w) = Raised (UnknownState to (states (self w)))
        \<or> fst (state_setter to w) = Raised InvalidStateError)
   \<and> (state (self w) \<in> set (states (self w))
        \<longrightarrow> wait_for_state (state (self w)) w = (Returned (), w))"
proof (intro conjI impI)
  show "(\<exists>e. StateMachine_init declared initial = Inl e) \<longleftrightarrow> initial \<notin> set declared"
    by (rule init_iff)
  show "StateMachine_init declared initial = Inl (UnknownInitialState initial declared)"
    if "initial \<notin> set declared"
    using that by (simp add: StateMachine_init_def)
  show "StateMachine_init declared initial
      = Inr \<lparr>states = declared, state = initial, futures_for_state = Map.empty\<rparr>"
    if "initial \<in> set declared"
    using that by (simp add: StateMachine_init_def)
  show "(\<exists>msg. fst (state_setter to w) = Raised (ValueError msg))
      \<longleftrightarrow> to \<notin> set (states (self w))"
    by (rule setter_value_error_iff)
  show "state_setter to w = (Raised (UnknownState to (states (self w))), w)"
    if "to \<notin> set (states (self w))"
    using that by (rule setter_undeclared)
  show "fst (state_setter to w) = Returned ()
      \<longleftrightarrow> to \<in> set (states (self w)) \<and> distinct (waiters w to)
           \<and> (\<forall>f\<in>set (waiters w to). futures w f = PENDING)"
    by (rule setter_returned_iff)
  show "wait_for_state (state (self w)) w = (Returned (), w)"
    if "state (self w) \<in> set (states (self w))"
    using that by (rule wait_active)
  show "fst (state_setter to w) = Returned ()
      \<or> fst (state_setter to w) = Raised (UnknownState to (states (self w)))
      \<or> fst (state_setter to w) = Raised InvalidStateError"
  proof (cases "to \<in> set (states (self w))")
    case True
    let ?w2 = "w\<lparr>self := (self w)\<lparr>state := to,
          futures_for_state := snd (getitem to (futures_for_state (self w)))\<rparr>\<rparr>"
    from set_results_exits [of "waiters w to" ?w2] True show ?thesis
      by (auto simp: setter_declared)
  next
    case False
    then show ?thesis by (simp add: setter_undeclared)
  qed
next
  assume ok: "fst (state_setter to w) = Returned ()"
  show "state (self (snd (state_setter to w))) = to"
    by (rule setter_success(1) [OF ok])
  show "states (self (snd (state_setter to w))) = states (self w)"
    by (rule setter_success(2) [OF ok])
  show "\<forall>f\<in>set (waiters w to). futures (snd (state_setter to w)) f = FINISHED"
    by (rule setter_success(3) [OF ok])
  show "\<forall>f. f \<notin> set (waiters w to)
      \<longrightarrow> futures (snd (state_setter to w)) f = futures w f"
    by (rule setter_success(4) [OF ok])
  show "\<forall>key. waiters (snd (state_setter to w)) key = waiters w key"
    by (rule setter_success(5) [OF ok])
qed

lemma three_waiters_fields:
  "states (self three_waiters) = [''idle'', ''connected'', ''closed'']"
  "state (self three_waiters) = ''idle''"
  "waiters three_waiters ''connected'' = [0, 2]"
  "waiters three_waiters ''closed'' = [1]"
  "futures three_waiters f = PENDING"
  "created three_waiters = 3"
  by (simp_all add: three_waiters_def on_loop_def wait_for_state_def create_future_def
      getitem_def await_future_def waiters_def Let_def)

theorem state_machine_contract_witness:
  "(\<exists>e. StateMachine_init [''idle'', ''connected'', ''closed''] ''bogus'' = Inl e)
   \<and> StateMachine_init [''idle'', ''connected'', ''closed''] ''idle''
       = Inr \<lparr>states = [''idle'', ''connected'', ''closed''], state = ''idle'',
              futures_for_state = Map.empty\<rparr>
   \<and> state_setter ''bogus'' three_waiters
       = (Raised (UnknownState ''bogus'' [''idle'', ''connected'', ''closed'']), three_waiters)
   \<and> fst (state_setter ''connected'' three_waiters) = Returned ()
   \<and> state (self (snd (state_setter ''connected'' three_waiters))) = ''connected''
   \<and> futures (snd (state_setter ''connected'' three_waiters)) 0 = FINISHED
   \<and> futures (snd (state_setter ''connected'' three_waiters)) 2 = FINISHED
   \<and> futures (snd (state_setter ''connected'' three_waiters)) 1 = PENDING
   \<and> waiters (snd (state_setter ''connected'' three_waiters)) ''connected'' = [0, 2]
   \<and> waiters (snd (state_setter ''connected'' three_waiters)) ''closed'' = [1]
   \<and> wait_for_state ''connected'' (snd (state_setter ''connected'' three_waiters))
       = (Returned (), snd (state_setter ''connected'' three_waiters))"
proof -
  note init = state_machine_contract [where declared = "[''idle'', ''connected'', ''closed'']"
      and w = three_waiters and to = "''bogus''"]
  note bogus = init [where initial = "''bogus''"]
  note idle = init [where initial = "''idle''"]
  note connected = state_machine_contract [where declared = "[]" and initial = "[]"
      and w = three_waiters and to = "''connected''"]
  have ok: "fst (state_setter ''connected'' three_waiters) = Returned ()"
    using connected by (simp add: three_waiters_fields)
  note after = state_machine_contract [where declared = "[]" and initial = "[]"
      and w = "snd (state_setter ''connected'' three_waiters)" and to = "''connected''"]
  have "\<exists>e. StateMachine_init [''idle'', ''connected'', ''closed''] ''bogus'' = Inl e"
    using bogus by simp
  moreover have "StateMachine_init [''idle'', ''connected'', ''closed''] ''idle''
       = Inr \<lparr>states = [''idle'', ''connected'', ''closed''], state = ''idle'',
              futures_for_state = Map.empty\<rparr>"
    using idle by simp
  moreover have "state_setter ''bogus'' three_waiters
       = (Raised (UnknownState ''bogus'' [''idle'', ''connected'', ''closed'']), three_waiters)"
    using bogus by (simp add: three_waiters_fields)
  moreover have "state (self (snd (state_setter ''connected'' three_waiters))) = ''connected''"
    and "futures (snd (state_setter ''connected'' three_waiters)) 0 = FINISHED"
    and "futures (snd (state_setter ''connected'' three_waiters)) 2 = FINISHED"
    and "futures (snd (state_setter ''connected'' three_waiters)) 1 = PENDING"
    and "waiters (snd (state_setter ''connected'' three_waiters)) ''connected'' = [0, 2]"
    and "waiters (snd (state_setter ''connected'' three_waiters)) ''closed'' = [1]"
    and "states (self (snd (state_setter ''connected'' three_waiters)))
       = [''idle'', ''connected'', ''closed'']"
    using connected ok by (simp_all add: three_waiters_fields)
  moreover from this(1,7)
  have "wait_for_state ''connected'' (snd (state_setter ''connected'' three_waiters))
       = (Returned (), snd (state_setter ''connected'' three_waiters))"
    using after by simp
  ultimately show ?thesis
    using ok by simp
qed

end
